theory Spec2Isabelle
  imports Main "HOL-Library.Word"
begin

section \<open>netsed: the rule engine, the rule parser and the connection dispatcher\<close>

text \<open>
  A shallow embedding of \<^verbatim>\<open>netsed.c\<close> (version 1.00b). C \<^verbatim>\<open>char\<close> is \<^typ>\<open>char\<close>, a C
  string is the \<^typ>\<open>string\<close> of its characters before the terminating NUL, a C
  \<^verbatim>\<open>int\<close> that is decremented or compared with zero is a 32-bit word, and sizes and
  indices are natural numbers.
\<close>

subsection \<open>Rules and buffers\<close>

type_synonym cint = "32 word"

text \<open>
  \<^verbatim>\<open>struct rule_s\<close>. The fields \<^verbatim>\<open>fs\<close> and \<^verbatim>\<open>ts\<close> of the C structure are the numbers of
  bytes stored in \<^verbatim>\<open>from\<close> and \<^verbatim>\<open>to\<close>; here they are the lengths of the two lists.
  (\<^verbatim>\<open>from\<close> and \<^verbatim>\<open>to\<close> are keywords of Isabelle, hence the suffix.)
\<close>

record rule_s =
  from_bin :: "char list"
  to_bin :: "char list"
  forig :: string
  torig :: string

definition MAX_BUF :: nat where
  "MAX_BUF = 100000"

text \<open>
  \<^verbatim>\<open>!memcmp(&buf[i], pat, n)\<close> with \<open>n\<close> the length of \<open>pat\<close>: the \<open>n\<close> bytes of the array
  from index \<open>i\<close> on are those of the pattern. The list \<open>buf\<close> is the whole array
  (\<^verbatim>\<open>MAX_BUF\<close> bytes in the program), not only the bytes of the current read. A comparison
  that runs past the end of the list is a mismatch here; the C program reads whatever
  follows the array.
\<close>

definition memcmp_at :: "char list \<Rightarrow> nat \<Rightarrow> char list \<Rightarrow> bool" where
  "memcmp_at buf i pat = (take (length pat) (drop i buf) = pat)"

text \<open>
  The inner loop of \<^verbatim>\<open>sed_the_buffer\<close>: \<^verbatim>\<open>for (j=0;j<rules;j++)\<close>, left by \<^verbatim>\<open>break\<close> at the
  first rule that matches at \<open>i\<close> and whose counter is not zero.
\<close>

function scan_rules :: "rule_s list \<Rightarrow> cint list \<Rightarrow> char list \<Rightarrow> nat \<Rightarrow> nat \<Rightarrow> nat option" where
  "scan_rules rule live buf i j =
     (if j < length rule then
        (if memcmp_at buf i (from_bin (rule ! j)) \<and> live ! j \<noteq> 0 then Some j
         else scan_rules rule live buf i (j + 1))
      else None)"
  by pat_completeness auto
termination
  by (relation "measure (\<lambda>(rule, live, buf, i, j). length rule - j)") auto

declare scan_rules.simps [simp del]

text \<open>
  One pass through the body of the outer loop, at cursor \<open>i\<close>: the new cursor, the
  counters and the bytes stored so far in \<^verbatim>\<open>b2\<close> (byte \<open>k\<close> of the list is \<^verbatim>\<open>b2[k]\<close>, so
  \<^verbatim>\<open>newsize\<close> is its length).
\<close>

definition sed_step ::
  "rule_s list \<Rightarrow> char list \<Rightarrow> nat \<Rightarrow> cint list \<Rightarrow> char list \<Rightarrow> nat \<times> cint list \<times> char list" where
  "sed_step rule buf i live b2 =
     (case scan_rules rule live buf i 0 of
        Some j \<Rightarrow> (i + length (from_bin (rule ! j)), live[j := live ! j - 1], b2 @ to_bin (rule ! j))
      | None \<Rightarrow> (i + 1, live, b2 @ [buf ! i]))"

text \<open>
  The outer loop \<^verbatim>\<open>for (i=0;i<siz;)\<close>. Nothing in the loop forces the cursor forward,
  so the loop is a partial function: \<open>None\<close> is a run that does not return.
\<close>

partial_function (option) sed_loop ::
  "rule_s list \<Rightarrow> char list \<Rightarrow> nat \<Rightarrow> nat \<Rightarrow> cint list \<Rightarrow> char list \<Rightarrow> (char list \<times> cint list) option" where
  "sed_loop rule buf siz i live b2 =
     (if i < siz then
        (case sed_step rule buf i live b2 of (i', live', b2') \<Rightarrow> sed_loop rule buf siz i' live' b2')
      else Some (b2, live))"

declare sed_loop.simps [code]

text \<open>
  \<^verbatim>\<open>sed_the_buffer(siz, live)\<close> on the global arrays: the result is the content of \<^verbatim>\<open>b2\<close>
  below the returned \<^verbatim>\<open>newsize\<close>, with the counters of the connection as the call
  leaves them.
\<close>

definition sed_the_buffer ::
  "rule_s list \<Rightarrow> char list \<Rightarrow> nat \<Rightarrow> cint list \<Rightarrow> (char list \<times> cint list) option" where
  "sed_the_buffer rule buf siz live = sed_loop rule buf siz 0 live []"

text \<open>
  The rule that \<^verbatim>\<open>s/f/t\<close> gives when neither pattern holds an escape and the counters
  \<^verbatim>\<open>fs\<close> and \<^verbatim>\<open>ts\<close> are found at zero: both patterns are stored as they are written (see
  \<open>shrink_to_binary\<close> below).
\<close>

definition plain_rule :: "string \<Rightarrow> string \<Rightarrow> rule_s" where
  "plain_rule f t = \<lparr>from_bin = f, to_bin = t, forig = f, torig = t\<rparr>"

subsection \<open>Chunks with counted occurrences\<close>

text \<open>
  Not code of the program, but the words of its description: a chunk that holds
  disjoint occurrences of a pattern \<open>X\<close>, given by the bytes between them. The gaps
  \<open>[g0, g1, ..., gk]\<close> stand for \<open>g0 X g1 X ... X gk\<close>, with \<open>k\<close> occurrences, and
  \<open>replace_first n\<close> is that chunk with the \<open>n\<close> leftmost of the occurrences replaced
  by \<open>Y\<close>.
\<close>

fun with_occurrences :: "char list \<Rightarrow> char list list \<Rightarrow> char list" where
  "with_occurrences X [] = []"
| "with_occurrences X [g] = g"
| "with_occurrences X (g # g' # gs) = g @ X @ with_occurrences X (g' # gs)"

fun replace_first :: "nat \<Rightarrow> char list \<Rightarrow> char list \<Rightarrow> char list list \<Rightarrow> char list" where
  "replace_first n X Y [] = []"
| "replace_first n X Y [g] = g"
| "replace_first n X Y (g # g' # gs) =
     g @ (if 0 < n then Y else X) @ replace_first (n - 1) X Y (g' # gs)"

subsection \<open>The rule parser\<close>

text \<open>
  \<^verbatim>\<open>error()\<close> prints its message and leaves the program with status 2: every call is a
  value of this type. The two patterns have their own messages (\<^verbatim>\<open>src pattern\<close>,
  \<^verbatim>\<open>dst pattern\<close>). The last two values are no calls of \<^verbatim>\<open>error()\<close>: \<open>Wild_store\<close> is a
  byte stored outside the array that was allocated for a pattern, and \<open>Wild_length\<close> a
  rule left with a length that is negative or larger than its array, so that \<^verbatim>\<open>memcmp\<close>
  and \<^verbatim>\<open>memcpy\<close> would run outside it. From there on C says nothing about the program,
  and the model stops with that value.
\<close>

datatype side = Src | Dst

datatype error =
    Missing_first_slash
  | Missing_second_slash
  | Malloc_failed
  | Unexpected_end side
  | Non_hex side
  | Wild_store side
  | Wild_length side

definition NUL :: char where
  "NUL = CHR 0x00"

text \<open>\<^verbatim>\<open>s[i]\<close> on a C string: the terminating NUL stands at index \<open>length s\<close>.\<close>

definition c_at :: "string \<Rightarrow> nat \<Rightarrow> char" where
  "c_at s i = (if i < length s then s ! i else NUL)"

definition hex :: string where
  "hex = ''0123456789ABCDEF''"

text \<open>
  C library, not part of the repository. \<^verbatim>\<open>strchr(s, c) - s\<close>: the offset of the first \<open>c\<close> in
  \<open>s\<close>, where the terminator counts as a character of the string; \<open>None\<close> is the
  null pointer. \<^verbatim>\<open>toupper\<close> in the C locale (the program never calls \<^verbatim>\<open>setlocale\<close>) changes
  the letters \<open>a\<close> to \<open>z\<close> only.
\<close>

fun strchr :: "string \<Rightarrow> char \<Rightarrow> nat option" where
  "strchr [] c = (if c = NUL then Some 0 else None)"
| "strchr (x # xs) c = (if x = c then Some 0 else map_option Suc (strchr xs c))"

definition toupper :: "char \<Rightarrow> char" where
  "toupper c =
     (if 97 \<le> (of_char c :: nat) \<and> (of_char c :: nat) \<le> 122 then char_of ((of_char c :: nat) - 32)
      else c)"

text \<open>
  What \<^verbatim>\<open>malloc\<close> left behind. \<^verbatim>\<open>main\<close> takes the rule array from \<^verbatim>\<open>malloc\<close> and sets \<^verbatim>\<open>forig\<close>
  and \<^verbatim>\<open>torig\<close> only; \<^verbatim>\<open>shrink_to_binary\<close> then indexes with \<^verbatim>\<open>r->fs\<close> and \<^verbatim>\<open>r->ts\<close> and counts
  in them as it finds them. \<open>fs0\<close> and \<open>ts0\<close> are the two values found there, \<open>from0\<close> and
  \<open>to0\<close> the bytes found in the two new arrays (byte \<open>k\<close> of the memory at the pointer).
\<close>

record uninit =
  fs0 :: int
  ts0 :: int
  from0 :: "nat \<Rightarrow> char"
  to0 :: "nat \<Rightarrow> char"

text \<open>
  \<^verbatim>\<open>r->from[r->fs]=c\<close> on an array of \<open>n\<close> bytes whose content is \<open>arr\<close>, with \<open>k\<close> the value
  of \<^verbatim>\<open>r->fs\<close>.
\<close>

definition store :: "side \<Rightarrow> nat \<Rightarrow> (nat \<Rightarrow> char) \<Rightarrow> int \<Rightarrow> char \<Rightarrow> error + (nat \<Rightarrow> char)" where
  "store sd n arr k c = (if 0 \<le> k \<and> k < int n then Inr (arr(nat k := c)) else Inl (Wild_store sd))"

text \<open>
  One of the two loops of \<^verbatim>\<open>shrink_to_binary\<close>, which differ in the pattern they read
  (\<^verbatim>\<open>forig\<close>, \<^verbatim>\<open>torig\<close>), in the array and the counter they use and in the words of their
  messages, and in nothing else. \<open>i\<close> is the loop index, \<open>arr\<close> the content of the array
  of \<open>length s\<close> bytes (\<^verbatim>\<open>malloc(strlen(r->forig))\<close>), \<open>fs\<close> the counter; the result is the
  array and the counter when the loop is left.
\<close>

function shrink_loop ::
  "side \<Rightarrow> string \<Rightarrow> nat \<Rightarrow> (nat \<Rightarrow> char) \<Rightarrow> int \<Rightarrow> error + ((nat \<Rightarrow> char) \<times> int)" where
  "shrink_loop sd s i arr fs =
     (if i < length s then
        (if c_at s i = CHR ''%'' then
           (if c_at s (i + 1) = CHR ''%'' then
              (case store sd (length s) arr fs (CHR ''%'') of
                 Inl e \<Rightarrow> Inl e
               | Inr arr' \<Rightarrow> shrink_loop sd s (i + 2) arr' (fs + 1))
            else if c_at s (i + 1) = NUL then Inl (Unexpected_end sd)
            else if c_at s (i + 2) = NUL then Inl (Unexpected_end sd)
            else
              (case strchr hex (toupper (c_at s (i + 1))) of
                 None \<Rightarrow> Inl (Non_hex sd)
               | Some x1 \<Rightarrow>
                   (case strchr hex (toupper (c_at s (i + 2))) of
                      None \<Rightarrow> Inl (Non_hex sd)
                    | Some x2 \<Rightarrow>
                        (case store sd (length s) arr fs (char_of (x1 * 16 + x2)) of
                           Inl e \<Rightarrow> Inl e
                         | Inr arr' \<Rightarrow> shrink_loop sd s (i + 3) arr' (fs + 1)))))
         else
           (case store sd (length s) arr fs (c_at s i) of
              Inl e \<Rightarrow> Inl e
            | Inr arr' \<Rightarrow> shrink_loop sd s (i + 1) arr' (fs + 1)))
      else Inr (arr, fs))"
  by pat_completeness auto
termination
  by (relation "measure (\<lambda>(sd, s, i, arr, fs). length s - i)") auto

declare shrink_loop.simps [simp del]

text \<open>
  \<^verbatim>\<open>shrink_to_binary\<close>. \<open>malloc_ok n\<close> says whether \<^verbatim>\<open>malloc(n)\<close> returns a pointer that is
  not null; both arrays are allocated, and tested, before any pattern is read. For
  \<open>n = 0\<close> the C standard allows either answer (the GNU C library returns a pointer).
  The rule that comes out has for its patterns the \<^verbatim>\<open>fs\<close> bytes at \<^verbatim>\<open>from\<close> and the \<^verbatim>\<open>ts\<close> bytes
  at \<^verbatim>\<open>to\<close>, which is what the engine compares and copies.
\<close>

definition shrink_to_binary :: "(nat \<Rightarrow> bool) \<Rightarrow> uninit \<Rightarrow> string \<Rightarrow> string \<Rightarrow> error + rule_s" where
  "shrink_to_binary malloc_ok m fo to =
     (if \<not> malloc_ok (length fo) \<or> \<not> malloc_ok (length to) then Inl Malloc_failed
      else
        (case shrink_loop Src fo 0 (from0 m) (fs0 m) of
           Inl e \<Rightarrow> Inl e
         | Inr (fa, fs) \<Rightarrow>
             (case shrink_loop Dst to 0 (to0 m) (ts0 m) of
                Inl e \<Rightarrow> Inl e
              | Inr (ta, ts) \<Rightarrow>
                  if fs < 0 \<or> int (length fo) < fs then Inl (Wild_length Src)
                  else if ts < 0 \<or> int (length to) < ts then Inl (Wild_length Dst)
                  else Inr \<lparr>from_bin = map fa [0..<nat fs], to_bin = map ta [0..<nat ts],
                            forig = fo, torig = to\<rparr>)))"

text \<open>Memory that \<^verbatim>\<open>malloc\<close> hands out cleared, as a process gets it fresh from the system.\<close>

definition zeroed :: uninit where
  "zeroed = \<lparr>fs0 = 0, ts0 = 0, from0 = (\<lambda>k. NUL), to0 = (\<lambda>k. NUL)\<rparr>"

text \<open>
  C library, not part of the repository: \<^verbatim>\<open>atoi\<close> skips white space, reads an optional
  sign and then decimal digits up to the first character that is none. (A value outside
  the range of \<^verbatim>\<open>int\<close> is undefined in C; here it is reduced modulo \<open>2^32\<close>.)
\<close>

definition isspace :: "char \<Rightarrow> bool" where
  "isspace c = (c \<in> set [CHR '' '', CHR 0x09, CHR 0x0A, CHR 0x0B, CHR 0x0C, CHR 0x0D])"

definition isdigit :: "char \<Rightarrow> bool" where
  "isdigit c = (48 \<le> (of_char c :: nat) \<and> (of_char c :: nat) \<le> 57)"

fun digits_val :: "string \<Rightarrow> int \<Rightarrow> int" where
  "digits_val [] acc = acc"
| "digits_val (c # cs) acc =
     (if isdigit c then digits_val cs (10 * acc + (of_char c - 48)) else acc)"

definition atoi :: "string \<Rightarrow> cint" where
  "atoi s =
     (case dropWhile isspace s of
        [] \<Rightarrow> 0
      | c # cs \<Rightarrow>
          if c = CHR ''-'' then word_of_int (- digits_val cs 0)
          else if c = CHR ''+'' then word_of_int (digits_val cs 0)
          else word_of_int (digits_val (c # cs) 0))"

text \<open>
  \<^verbatim>\<open>p = strchr(s,'/')\<close> followed by \<^verbatim>\<open>*p=0; p++\<close>: the string before the first slash and the
  string after it, or \<open>None\<close> when there is no slash.
\<close>

definition split_slash :: "string \<Rightarrow> (string \<times> string) option" where
  "split_slash s =
     (if CHR ''/'' \<in> set s
      then Some (takeWhile (\<lambda>c. c \<noteq> CHR ''/'') s, tl (dropWhile (\<lambda>c. c \<noteq> CHR ''/'') s))
      else None)"

text \<open>
  The body of the loop of \<^verbatim>\<open>main\<close> that parses one rule argument: the rule and the entry
  of \<^verbatim>\<open>rule_live\<close>. What stands before the first slash is skipped and never looked at.
  \<open>m\<close> is what \<^verbatim>\<open>malloc\<close> left in the entry of the rule array and in the two arrays.
\<close>

definition parse_rule :: "(nat \<Rightarrow> bool) \<Rightarrow> uninit \<Rightarrow> string \<Rightarrow> error + (rule_s \<times> cint)" where
  "parse_rule malloc_ok m arg =
     (case split_slash arg of
        None \<Rightarrow> Inl Missing_first_slash
      | Some (_, fs) \<Rightarrow>
          (case split_slash fs of
             None \<Rightarrow> Inl Missing_second_slash
           | Some (fo, ts) \<Rightarrow>
               (let (to, cs) = (case split_slash ts of None \<Rightarrow> (ts, None) | Some (t, c) \<Rightarrow> (t, Some c));
                    lv = (case cs of Some c \<Rightarrow> if c \<noteq> [] then atoi c else - 1 | None \<Rightarrow> - 1)
                in (case shrink_to_binary malloc_ok m fo to of
                      Inl e \<Rightarrow> Inl e
                    | Inr r \<Rightarrow> Inr (r, lv)))))"

subsection \<open>Escape decoding as the specification words it\<close>

text \<open>
  The value of a hexadecimal digit of either case, and the decoding of a pattern read
  from left to right: \<open>%%\<close> is one \<open>%\<close>, a \<open>%\<close> with two hexadecimal digits is the byte
  of that value, a \<open>%\<close> with fewer than two characters after it is an unexpected end, a
  \<open>%\<close> with two characters that are not both hexadecimal digits is a non-hex sequence,
  and every other character stands for itself.
\<close>

definition hex_digit_val :: "char \<Rightarrow> nat option" where
  "hex_digit_val c =
     (let n = (of_char c :: nat) in
      if 48 \<le> n \<and> n \<le> 57 then Some (n - 48)
      else if 65 \<le> n \<and> n \<le> 70 then Some (n - 55)
      else if 97 \<le> n \<and> n \<le> 102 then Some (n - 87)
      else None)"

definition emit :: "char \<Rightarrow> error + char list \<Rightarrow> error + char list" where
  "emit c r = (case r of Inl e \<Rightarrow> Inl e | Inr bs \<Rightarrow> Inr (c # bs))"

fun escape_decode :: "side \<Rightarrow> string \<Rightarrow> error + char list" where
  "escape_decode sd [] = Inr []"
| "escape_decode sd [c] = (if c = CHR ''%'' then Inl (Unexpected_end sd) else Inr [c])"
| "escape_decode sd [c, d] =
     (if c = CHR ''%'' then (if d = CHR ''%'' then Inr [CHR ''%''] else Inl (Unexpected_end sd))
      else emit c (escape_decode sd [d]))"
| "escape_decode sd (c # d # e # es) =
     (if c = CHR ''%'' then
        (if d = CHR ''%'' then emit (CHR ''%'') (escape_decode sd (e # es))
         else
           (case (hex_digit_val d, hex_digit_val e) of
              (Some h, Some l) \<Rightarrow> emit (char_of (16 * h + l)) (escape_decode sd es)
            | _ \<Rightarrow> Inl (Non_hex sd)))
      else emit c (escape_decode sd (d # e # es)))"

text \<open>
  The bytes \<open>bs\<close> stored into an array from index \<open>k\<close> on, and what a loop of
  \<^verbatim>\<open>shrink_to_binary\<close> returns when its stores from index \<open>k\<close> on are those of the decoding \<open>r\<close>.
\<close>

fun put :: "(nat \<Rightarrow> char) \<Rightarrow> nat \<Rightarrow> char list \<Rightarrow> (nat \<Rightarrow> char)" where
  "put arr k [] = arr"
| "put arr k (b # bs) = put (arr(k := b)) (Suc k) bs"

definition stored :: "(nat \<Rightarrow> char) \<Rightarrow> nat \<Rightarrow> error + char list \<Rightarrow> error + ((nat \<Rightarrow> char) \<times> int)" where
  "stored arr k r =
     (case r of Inl e \<Rightarrow> Inl e | Inr bs \<Rightarrow> Inr (put arr k bs, int (k + length bs)))"

subsection \<open>Connections\<close>

text \<open>\<^verbatim>\<open>enum state_e\<close>, with the values the C compiler gives its members.\<close>

datatype state_e = UNREPLIED | ESTABLISHED | DISCONNECTED | TIMEOUT

fun state_num :: "state_e \<Rightarrow> nat" where
  "state_num UNREPLIED = 0"
| "state_num ESTABLISHED = 1"
| "state_num DISCONNECTED = 2"
| "state_num TIMEOUT = 3"

text \<open>
  \<^verbatim>\<open>struct tracker_s\<close>. \<^verbatim>\<open>csa\<close> is the copy of the client address of a udp entry, \<open>None\<close> the
  null pointer of a tcp entry; the chain pointer \<^verbatim>\<open>n\<close> is the order of the list of
  connections.
\<close>

record tracker_s =
  csa :: "char list option"
  csl :: nat
  csock :: int
  fsock :: int
  time :: int
  state :: state_e
  live :: "cint list"

definition UDP_TIMEOUT :: int where
  "UDP_TIMEOUT = 30"

text \<open>
  What the program does to the outside, in order: sockets closed, address copies
  freed, and the bytes of \<^verbatim>\<open>b2\<close> handed to \<^verbatim>\<open>write\<close> and \<^verbatim>\<open>sendto\<close>.
\<close>

datatype event =
    Close int
  | Free_csa "char list"
  | Write int "char list"
  | Sendto int "char list option" "char list"

text \<open>The variables set at startup, and the global state the loop works on.\<close>

record config =
  tcp :: bool
  lsock :: int
  rule :: "rule_s list"
  rule_live :: "cint list"

record world =
  buf :: "char list"
  connections :: "tracker_s list"
  trace :: "event list"

text \<open>
  What the system calls of one turn of the loop return: the time, the descriptors
  \<^verbatim>\<open>select\<close> reports readable, the socket from \<^verbatim>\<open>accept\<close>, the datagram and its source
  address from \<^verbatim>\<open>recvfrom\<close> (\<open>None\<close> when it fails), the descriptor from \<^verbatim>\<open>socket\<close>, whether
  \<^verbatim>\<open>connect\<close> succeeds, and for each descriptor what \<^verbatim>\<open>read\<close> returns and whether \<^verbatim>\<open>write\<close>
  and \<^verbatim>\<open>sendto\<close> return a positive number.
\<close>

datatype read_res = Rd_error bool | Rd_bytes "char list"

record env =
  now :: int
  rd_set :: "int \<Rightarrow> bool"
  accept_r :: int
  recvfrom_r :: "(char list \<times> char list) option"
  socket_r :: int
  connect_ok :: bool
  read_r :: "int \<Rightarrow> read_res"
  write_ok :: "int \<Rightarrow> char list \<Rightarrow> bool"
  sendto_ok :: "int \<Rightarrow> char list \<Rightarrow> bool"

text \<open>\<^verbatim>\<open>freetracker\<close>: the calls it makes (\<^verbatim>\<open>free(conn)\<close> itself leaves no event).\<close>

definition freetracker :: "tracker_s \<Rightarrow> event list" where
  "freetracker conn =
     (case csa conn of Some a \<Rightarrow> [Free_csa a] | None \<Rightarrow> [Close (csock conn)]) @ [Close (fsock conn)]"

text \<open>A read of the bytes \<open>d\<close> into the array: the bytes after them stay as they were.\<close>

definition read_into :: "char list \<Rightarrow> char list \<Rightarrow> char list" where
  "read_into d b = d @ drop (length d) b"

text \<open>
  \<^verbatim>\<open>b2server_sed\<close>: the \<open>rd\<close> bytes are in \<^verbatim>\<open>buf\<close> already. The result is \<open>None\<close> when the
  rule engine does not return.
\<close>

definition b2server_sed :: "config \<Rightarrow> env \<Rightarrow> tracker_s \<Rightarrow> int \<Rightarrow> world \<Rightarrow> (tracker_s \<times> world) option" where
  "b2server_sed cfg e conn rd w =
     (if 0 < rd then
        (case sed_the_buffer (rule cfg) (buf w) (nat rd) (live conn) of
           None \<Rightarrow> None
         | Some (out, lv) \<Rightarrow>
             Some ((conn\<lparr>live := lv, time := now e\<rparr>)
                     \<lparr>state := (if write_ok e (fsock conn) out then state conn else DISCONNECTED)\<rparr>,
                   w\<lparr>trace := trace w @ [Write (fsock conn) out]\<rparr>))
      else Some (conn, w))"

text \<open>\<^verbatim>\<open>client2server_sed\<close> (tcp only).\<close>

definition client2server_sed :: "config \<Rightarrow> env \<Rightarrow> tracker_s \<Rightarrow> world \<Rightarrow> (tracker_s \<times> world) option" where
  "client2server_sed cfg e conn w =
     (case read_r e (csock conn) of
        Rd_error eagain \<Rightarrow>
          b2server_sed cfg e (if eagain then conn else conn\<lparr>state := DISCONNECTED\<rparr>) (- 1) w
      | Rd_bytes d \<Rightarrow>
          b2server_sed cfg e (if d = [] then conn\<lparr>state := DISCONNECTED\<rparr> else conn)
            (int (length d)) (w\<lparr>buf := read_into d (buf w)\<rparr>))"

text \<open>\<^verbatim>\<open>server2client_sed\<close>.\<close>

definition server2client_sed :: "config \<Rightarrow> env \<Rightarrow> tracker_s \<Rightarrow> world \<Rightarrow> (tracker_s \<times> world) option" where
  "server2client_sed cfg e conn w =
     (case read_r e (fsock conn) of
        Rd_error eagain \<Rightarrow> Some (if eagain then conn else conn\<lparr>state := DISCONNECTED\<rparr>, w)
      | Rd_bytes d \<Rightarrow>
          if d = [] then Some (conn\<lparr>state := DISCONNECTED\<rparr>, w)
          else
            (case sed_the_buffer (rule cfg) (read_into d (buf w)) (length d) (live conn) of
               None \<Rightarrow> None
             | Some (out, lv) \<Rightarrow>
                 Some ((conn\<lparr>live := lv, time := now e\<rparr>)
                         \<lparr>state := (if sendto_ok e (csock conn) out then ESTABLISHED else DISCONNECTED)\<rparr>,
                       w\<lparr>buf := read_into d (buf w),
                         trace := trace w @ [Sendto (csock conn) (csa conn) out]\<rparr>)))"

text \<open>
  The lookup of a udp connection: the first entry whose \<^verbatim>\<open>csl\<close> is the length \<open>l\<close> of the
  address \<open>a\<close> that \<^verbatim>\<open>recvfrom\<close> filled in and whose \<^verbatim>\<open>csa\<close> holds the same \<open>l\<close> bytes; the
  result is its position in the list, \<open>None\<close> the null pointer the loop ends with.
  (The loop is only run in udp mode, where every entry has an address.)
\<close>

fun find_conn :: "char list \<Rightarrow> tracker_s list \<Rightarrow> nat option" where
  "find_conn a [] = None"
| "find_conn a (c # cs) =
     (if csl c = length a \<and> (case csa c of None \<Rightarrow> False | Some b \<Rightarrow> take (length a) b = a)
      then Some 0
      else map_option Suc (find_conn a cs))"

text \<open>
  The new entry for a client: \<open>a\<close> is the address it came from, \<open>cs\<close> the socket towards
  it. The choice of the address to forward to, and the socket options, are left out:
  they decide where \<^verbatim>\<open>fsock\<close> is connected, which is what \<open>connect_ok\<close> answers.
\<close>

definition new_conn :: "config \<Rightarrow> env \<Rightarrow> char list \<Rightarrow> int \<Rightarrow> tracker_s" where
  "new_conn cfg e a cs =
     \<lparr>csa = (if tcp cfg then None else Some a),
      csl = (if tcp cfg then 0 else length a),
      csock = cs,
      fsock = socket_r e,
      time = now e,
      state = (if tcp cfg then ESTABLISHED else UNREPLIED),
      live = rule_live cfg\<rparr>"

text \<open>
  The branch \<^verbatim>\<open>if (FD_ISSET(lsock, &rd_set))\<close> of the loop: \<^verbatim>\<open>accept\<close> for tcp; for udp
  \<^verbatim>\<open>recvfrom\<close> into \<^verbatim>\<open>buf\<close>, the lookup, and \<^verbatim>\<open>b2server_sed\<close> on the entry found or made. A new
  entry whose \<^verbatim>\<open>connect\<close> fails is freed at once and the datagram is dropped.
\<close>

definition lsock_ready :: "config \<Rightarrow> env \<Rightarrow> world \<Rightarrow> world option" where
  "lsock_ready cfg e w =
     (if tcp cfg then
        (if 0 \<le> accept_r e then
           (let conn = new_conn cfg e [] (accept_r e) in
            if connect_ok e then Some (w\<lparr>connections := conn # connections w\<rparr>)
            else Some (w\<lparr>trace := trace w @ freetracker conn\<rparr>))
         else Some w)
      else
        (case recvfrom_r e of
           None \<Rightarrow> Some w
         | Some (d, a) \<Rightarrow>
             (let w1 = w\<lparr>buf := read_into d (buf w)\<rparr> in
              case find_conn a (connections w1) of
                Some k \<Rightarrow>
                  (case b2server_sed cfg e (connections w1 ! k) (int (length d)) w1 of
                     None \<Rightarrow> None
                   | Some (conn, w2) \<Rightarrow> Some (w2\<lparr>connections := (connections w2)[k := conn]\<rparr>))
              | None \<Rightarrow>
                  (let conn = new_conn cfg e a (lsock cfg) in
                   if connect_ok e then
                     (case b2server_sed cfg e conn (int (length d)) w1 of
                        None \<Rightarrow> None
                      | Some (conn', w2) \<Rightarrow> Some (w2\<lparr>connections := conn' # connections w2\<rparr>))
                   else Some (w1\<lparr>trace := trace w1 @ freetracker conn\<rparr>)))))"

text \<open>
  The second loop over the connections (\<^verbatim>\<open>all other sockets\<close>): the handlers of the
  readable sockets, the udp timeout, and the removal of an entry whose state is at or
  past \<^verbatim>\<open>DISCONNECTED\<close>. The result is the list that is left and the world after it.
\<close>

fun serve_conns :: "config \<Rightarrow> env \<Rightarrow> tracker_s list \<Rightarrow> world \<Rightarrow> (tracker_s list \<times> world) option" where
  "serve_conns cfg e [] w = Some ([], w)"
| "serve_conns cfg e (conn # cs) w =
     (case (if tcp cfg \<and> rd_set e (csock conn) then client2server_sed cfg e conn w
            else Some (conn, w)) of
        None \<Rightarrow> None
      | Some (c1, w1) \<Rightarrow>
          (case (if rd_set e (fsock c1) then server2client_sed cfg e c1 w1 else Some (c1, w1)) of
             None \<Rightarrow> None
           | Some (c2, w2) \<Rightarrow>
               (let c3 = (if \<not> tcp cfg \<and> UDP_TIMEOUT \<le> now e - time c2
                          then c2\<lparr>state := TIMEOUT\<rparr> else c2)
                in if state_num DISCONNECTED \<le> state_num (state c3)
                   then serve_conns cfg e cs (w2\<lparr>trace := trace w2 @ freetracker c3\<rparr>)
                   else (case serve_conns cfg e cs w2 of
                           None \<Rightarrow> None
                         | Some (kept, w3) \<Rightarrow> Some (c3 # kept, w3)))))"

text \<open>
  One turn of the loop of \<^verbatim>\<open>main\<close> from the return of \<^verbatim>\<open>select\<close> on, when the loop is not
  left (\<^verbatim>\<open>stop\<close> is not set and \<^verbatim>\<open>select\<close> did not fail), in its two parts; and a run of
  the loop over the turns \<open>es\<close>.
\<close>

definition listen_part :: "config \<Rightarrow> env \<Rightarrow> world \<Rightarrow> world option" where
  "listen_part cfg e w = (if rd_set e (lsock cfg) then lsock_ready cfg e w else Some w)"

definition serve_part :: "config \<Rightarrow> env \<Rightarrow> world \<Rightarrow> world option" where
  "serve_part cfg e w =
     (case serve_conns cfg e (connections w) w of
        None \<Rightarrow> None
      | Some (kept, w') \<Rightarrow> Some (w'\<lparr>connections := kept\<rparr>))"

definition dispatch_iter :: "config \<Rightarrow> env \<Rightarrow> world \<Rightarrow> world option" where
  "dispatch_iter cfg e w =
     (case listen_part cfg e w of None \<Rightarrow> None | Some w1 \<Rightarrow> serve_part cfg e w1)"

fun run_loop :: "config \<Rightarrow> env list \<Rightarrow> world \<Rightarrow> world option" where
  "run_loop cfg [] w = Some w"
| "run_loop cfg (e # es) w =
     (case dispatch_iter cfg e w of None \<Rightarrow> None | Some w' \<Rightarrow> run_loop cfg es w')"

subsection \<open>Notions used in the statements about the dispatcher\<close>

text \<open>
  Two records of one connection (the handlers change the state, the time and the
  counters of an entry, never its sockets or its address); an entry whose resources
  were released among the events \<open>evs\<close>; and the condition that udp entries have
  addresses that differ from each other, each of the length noted beside it.
\<close>

definition same_sockets :: "tracker_s \<Rightarrow> tracker_s \<Rightarrow> bool" where
  "same_sockets c c' =
     (csa c' = csa c \<and> csl c' = csl c \<and> csock c' = csock c \<and> fsock c' = fsock c)"

definition released :: "tracker_s \<Rightarrow> event list \<Rightarrow> bool" where
  "released c evs =
     (Close (fsock c) \<in> set evs \<and>
      (case csa c of None \<Rightarrow> Close (csock c) \<in> set evs | Some a \<Rightarrow> Free_csa a \<in> set evs))"

definition udp_inv :: "tracker_s list \<Rightarrow> bool" where
  "udp_inv cs =
     (distinct (map csa cs) \<and>
      (\<forall>c \<in> set cs. case csa c of None \<Rightarrow> False | Some a \<Rightarrow> csl c = length a))"

subsection \<open>A udp scene to run the dispatcher on\<close>

text \<open>
  One rule \<^verbatim>\<open>s/a/b\<close>, the listening socket 3, and system calls that succeed: at time \<open>t\<close>
  the descriptors \<open>ready\<close> are readable, \<^verbatim>\<open>recvfrom\<close> returns \<open>dg\<close>, \<^verbatim>\<open>socket\<close> returns \<open>fs\<close> and
  every \<^verbatim>\<open>read\<close> returns the byte \<open>a\<close>.
\<close>

definition scene_cfg :: config where
  "scene_cfg = \<lparr>tcp = False, lsock = 3, rule = [plain_rule ''a'' ''b''], rule_live = [- 1]\<rparr>"

definition scene_env :: "int \<Rightarrow> int list \<Rightarrow> (char list \<times> char list) option \<Rightarrow> int \<Rightarrow> env" where
  "scene_env t ready dg fs =
     \<lparr>now = t, rd_set = (\<lambda>fd. fd \<in> set ready), accept_r = - 1, recvfrom_r = dg, socket_r = fs,
      connect_ok = True, read_r = (\<lambda>fd. Rd_bytes ''a''), write_ok = (\<lambda>fd bs. True),
      sendto_ok = (\<lambda>fd bs. True)\<rparr>"

definition scene_conn :: "string \<Rightarrow> int \<Rightarrow> int \<Rightarrow> state_e \<Rightarrow> cint \<Rightarrow> tracker_s" where
  "scene_conn a fs t st n =
     \<lparr>csa = Some a, csl = length a, csock = 3, fsock = fs, time = t, state = st, live = [n]\<rparr>"




section \<open>Properties\<close>

subsection \<open>The rule engine\<close>

lemma scan_rules_None_iff:
  "scan_rules rs lv bf i j0 = None \<longleftrightarrow>
     (\<forall>j. j0 \<le> j \<and> j < length rs \<longrightarrow> \<not> (memcmp_at bf i (from_bin (rs ! j)) \<and> lv ! j \<noteq> 0))"
proof (induction rs lv bf i j0 rule: scan_rules.induct)
  case (1 rs lv bf i j)
  show ?case
  proof (cases "j < length rs")
    case False
    then show ?thesis by (subst scan_rules.simps) auto
  next
    case True
    show ?thesis
    proof (cases "memcmp_at bf i (from_bin (rs ! j)) \<and> lv ! j \<noteq> 0")
      case hit: True
      with True show ?thesis
        by (subst scan_rules.simps) auto
    next
      case miss: False
      have "(\<forall>k. j \<le> k \<and> k < length rs \<longrightarrow> \<not> (memcmp_at bf i (from_bin (rs ! k)) \<and> lv ! k \<noteq> 0))
            \<longleftrightarrow> (\<forall>k. j + 1 \<le> k \<and> k < length rs \<longrightarrow> \<not> (memcmp_at bf i (from_bin (rs ! k)) \<and> lv ! k \<noteq> 0))"
        using miss by (metis Suc_eq_plus1 Suc_leI le_eq_less_or_eq Suc_leD)
      with True miss "1.IH" show ?thesis
        by (subst scan_rules.simps) auto
    qed
  qed
qed

lemma scan_rules_Some_iff:
  "scan_rules rs lv bf i j0 = Some j \<longleftrightarrow>
     j0 \<le> j \<and> j < length rs \<and> memcmp_at bf i (from_bin (rs ! j)) \<and> lv ! j \<noteq> 0 \<and>
     (\<forall>k. j0 \<le> k \<and> k < j \<longrightarrow> \<not> (memcmp_at bf i (from_bin (rs ! k)) \<and> lv ! k \<noteq> 0))"
proof (induction rs lv bf i j0 rule: scan_rules.induct)
  case (1 rs lv bf i j0)
  show ?case
  proof (cases "j0 < length rs")
    case False
    then show ?thesis by (subst scan_rules.simps) auto
  next
    case True
    show ?thesis
    proof (cases "memcmp_at bf i (from_bin (rs ! j0)) \<and> lv ! j0 \<noteq> 0")
      case hit: True
      have "scan_rules rs lv bf i j0 = Some j0"
        using True hit by (subst scan_rules.simps) simp
      moreover have "j0 = j \<longleftrightarrow> (j0 \<le> j \<and> j < length rs \<and> memcmp_at bf i (from_bin (rs ! j)) \<and> lv ! j \<noteq> 0 \<and>
     (\<forall>k. j0 \<le> k \<and> k < j \<longrightarrow> \<not> (memcmp_at bf i (from_bin (rs ! k)) \<and> lv ! k \<noteq> 0)))"
      proof
        assume "j0 = j"
        with True hit show "j0 \<le> j \<and> j < length rs \<and> memcmp_at bf i (from_bin (rs ! j)) \<and> lv ! j \<noteq> 0 \<and>
     (\<forall>k. j0 \<le> k \<and> k < j \<longrightarrow> \<not> (memcmp_at bf i (from_bin (rs ! k)) \<and> lv ! k \<noteq> 0))"
          by auto
      next
        assume r: "j0 \<le> j \<and> j < length rs \<and> memcmp_at bf i (from_bin (rs ! j)) \<and> lv ! j \<noteq> 0 \<and>
     (\<forall>k. j0 \<le> k \<and> k < j \<longrightarrow> \<not> (memcmp_at bf i (from_bin (rs ! k)) \<and> lv ! k \<noteq> 0))"
        show "j0 = j"
        proof (rule ccontr)
          assume "j0 \<noteq> j"
          with r have "j0 < j" by simp
          with r hit show False by blast
        qed
      qed
      ultimately show ?thesis by simp
    next
      case miss: False
      have step: "scan_rules rs lv bf i j0 = scan_rules rs lv bf i (j0 + 1)"
        using True miss by (subst scan_rules.simps) auto
      have "(j0 \<le> j \<and> j < length rs \<and> memcmp_at bf i (from_bin (rs ! j)) \<and> lv ! j \<noteq> 0 \<and>
     (\<forall>k. j0 \<le> k \<and> k < j \<longrightarrow> \<not> (memcmp_at bf i (from_bin (rs ! k)) \<and> lv ! k \<noteq> 0)))
       \<longleftrightarrow> (j0 + 1 \<le> j \<and> j < length rs \<and> memcmp_at bf i (from_bin (rs ! j)) \<and> lv ! j \<noteq> 0 \<and>
     (\<forall>k. j0 + 1 \<le> k \<and> k < j \<longrightarrow> \<not> (memcmp_at bf i (from_bin (rs ! k)) \<and> lv ! k \<noteq> 0)))"
        using miss by (metis Suc_eq_plus1 Suc_leI le_eq_less_or_eq Suc_leD)
      with step "1.IH" True miss show ?thesis by simp
    qed
  qed
qed

lemma sed_loop_done: "\<not> i < siz \<Longrightarrow> sed_loop rs bf siz i lv b2 = Some (b2, lv)"
  by (subst sed_loop.simps) simp

lemma sed_loop_step:
  "i < siz \<Longrightarrow> sed_step rs bf i lv b2 = (i', lv', b2') \<Longrightarrow>
   sed_loop rs bf siz i lv b2 = sed_loop rs bf siz i' lv' b2'"
  by (subst sed_loop.simps) simp

lemma sed_step_hit:
  "scan_rules rs lv bf i 0 = Some j \<Longrightarrow>
   sed_step rs bf i lv b2 =
     (i + length (from_bin (rs ! j)), lv[j := lv ! j - 1], b2 @ to_bin (rs ! j))"
  by (simp add: sed_step_def)

lemma sed_step_miss:
  "scan_rules rs lv bf i 0 = None \<Longrightarrow> sed_step rs bf i lv b2 = (i + 1, lv, b2 @ [bf ! i])"
  by (simp add: sed_step_def)

lemma sed_loop_no_match:
  assumes "siz \<le> length bf"
    and "\<forall>k. i \<le> k \<and> k < siz \<longrightarrow> scan_rules rs lv bf k 0 = None"
  shows "sed_loop rs bf siz i lv b2 = Some (b2 @ take (siz - i) (drop i bf), lv)"
  using assms
proof (induction "siz - i" arbitrary: i b2)
  case 0
  then show ?case by (simp add: sed_loop_done)
next
  case (Suc n)
  then have lt: "i < siz" and n: "n = siz - (i + 1)" by simp_all
  have miss: "scan_rules rs lv bf i 0 = None" using Suc.prems lt by simp
  have "sed_loop rs bf siz i lv b2 = sed_loop rs bf siz (i + 1) lv (b2 @ [bf ! i])"
    using lt miss by (rule sed_loop_step [OF _ sed_step_miss])
  also have "\<dots> = Some ((b2 @ [bf ! i]) @ take (siz - (i + 1)) (drop (i + 1) bf), lv)"
    using Suc.hyps(1) [OF n] Suc.prems by simp
  also have "(b2 @ [bf ! i]) @ take (siz - (i + 1)) (drop (i + 1) bf) = b2 @ take (siz - i) (drop i bf)"
  proof -
    have "i < length bf" using lt Suc.prems(1) by simp
    then have "drop i bf = bf ! i # drop (i + 1) bf"
      by (simp add: Cons_nth_drop_Suc)
    moreover have "siz - i = Suc (siz - (i + 1))" using lt by simp
    ultimately show ?thesis by simp
  qed
  finally show ?case .
qed

text \<open>
  C1 (as the code has it). When rule \<open>j\<close> is the first rule that matches at the cursor and
  whose counter is not zero, one pass of the loop body appends the replacement of rule \<open>j\<close>
  to the output, moves the cursor forward by the length of its source pattern and
  subtracts one from its counter, whatever the sign of the counter: the other counters
  are left alone, and inside the buffer the loop goes on from that state.
\<close>

theorem sed_step_first_match:
  assumes "j < length rs"
    and "memcmp_at bf i (from_bin (rs ! j))"
    and "lv ! j \<noteq> 0"
    and "\<forall>k<j. \<not> (memcmp_at bf i (from_bin (rs ! k)) \<and> lv ! k \<noteq> 0)"
  shows "sed_step rs bf i lv b2 =
           (i + length (from_bin (rs ! j)), lv[j := lv ! j - 1], b2 @ to_bin (rs ! j)) \<and>
         (i < siz \<longrightarrow> sed_loop rs bf siz i lv b2 =
            sed_loop rs bf siz (i + length (from_bin (rs ! j))) (lv[j := lv ! j - 1])
              (b2 @ to_bin (rs ! j)))"
proof -
  have "scan_rules rs lv bf i 0 = Some j"
    using assms by (simp add: scan_rules_Some_iff)
  then have step: "sed_step rs bf i lv b2 =
      (i + length (from_bin (rs ! j)), lv[j := lv ! j - 1], b2 @ to_bin (rs ! j))"
    by (rule sed_step_hit)
  then show ?thesis by (simp add: sed_loop_step)
qed

theorem sed_step_first_match_witness:
  "sed_step [plain_rule ''x'' ''y'', plain_rule ''ab'' ''X''] ''abc'' 0 [- 1, 3] [] = (2, [- 1, 2], ''X'') \<and>
   sed_loop [plain_rule ''x'' ''y'', plain_rule ''ab'' ''X''] ''abc'' 3 0 [- 1, 3] [] =
   sed_loop [plain_rule ''x'' ''y'', plain_rule ''ab'' ''X''] ''abc'' 3 2 [- 1, 2] ''X''"
proof -
  let ?rs = "[plain_rule ''x'' ''y'', plain_rule ''ab'' ''X'']"
  have j: "1 < length ?rs" by simp
  have hit: "memcmp_at ''abc'' 0 (from_bin (?rs ! 1))"
    by (simp add: plain_rule_def memcmp_at_def)
  have alive: "[- 1, 3 :: cint] ! 1 \<noteq> 0" by simp
  have first: "\<forall>k<1. \<not> (memcmp_at ''abc'' 0 (from_bin (?rs ! k)) \<and> [- 1, 3 :: cint] ! k \<noteq> 0)"
    by (simp add: plain_rule_def memcmp_at_def)
  have len: "0 + length (from_bin (?rs ! 1)) = 2" by (simp add: plain_rule_def)
  have upd: "[- 1, 3 :: cint][1 := [- 1, 3] ! 1 - 1] = [- 1, 2]" by simp
  have app: "[] @ to_bin (?rs ! 1) = ''X''" by (simp add: plain_rule_def)
  show ?thesis
    using sed_step_first_match [OF j hit alive first, of "[]" 3]
    unfolding len upd app by simp
qed

text \<open>
  C1 as written fails: a counter of \<open>-1\<close> is not kept, one application makes it \<open>-2\<close>.
\<close>

theorem unlimited_count_is_decremented:
  "sed_step [plain_rule ''a'' ''b''] ''a'' 0 [- 1] [] = (1, [- 2], ''b'') \<and>
   sed_the_buffer [plain_rule ''a'' ''b''] ''aa'' 2 [- 1] = Some (''bb'', [- 3]) \<and>
   [- 3] \<noteq> [- 1 :: cint]"
  by (simp add: sed_the_buffer_def sed_loop.simps sed_step_def scan_rules.simps memcmp_at_def
      plain_rule_def)

text \<open>
  C2 fails on the code: \<^verbatim>\<open>memcmp\<close> compares the whole pattern against the array and
  never looks at \<open>siz\<close>, so a byte beyond the bytes just read decides whether a rule
  fires. Two arrays that agree on the one byte read, with the same rules and counters,
  give different outputs.
\<close>

theorem sed_the_buffer_reads_beyond_siz:
  "take 1 ''ab'' = take 1 ''ac'' \<and>
   sed_the_buffer [plain_rule ''ab'' ''X''] ''ab'' 1 [- 1] = Some (''X'', [- 2]) \<and>
   sed_the_buffer [plain_rule ''ab'' ''X''] ''ac'' 1 [- 1] = Some (''a'', [- 1])"
  by (simp add: sed_the_buffer_def sed_loop.simps sed_step_def scan_rules.simps memcmp_at_def
      plain_rule_def)

text \<open>
  C5 (as the code has it). With unlimited counters, a second pass over the output of a
  first pass gives that output back whenever no source pattern occurs in it at a
  position below its length (the array holding the output may go on with any bytes
  \<open>rest\<close>). Without that proviso the second pass substitutes again.
\<close>

theorem sed_twice_when_output_has_no_match:
  assumes "sed_the_buffer rs bf siz (replicate (length rs) (- 1)) = Some (out, lv')"
    and "\<forall>i<length out. \<forall>j<length rs. \<not> memcmp_at (out @ rest) i (from_bin (rs ! j))"
  shows "sed_the_buffer rs (out @ rest) (length out) (replicate (length rs) (- 1)) =
           Some (out, replicate (length rs) (- 1))"
proof -
  have "\<forall>k. 0 \<le> k \<and> k < length out \<longrightarrow>
          scan_rules rs (replicate (length rs) (- 1)) (out @ rest) k 0 = None"
    using assms(2) by (simp add: scan_rules_None_iff)
  then have "sed_loop rs (out @ rest) (length out) 0 (replicate (length rs) (- 1)) [] =
      Some ([] @ take (length out - 0) (drop 0 (out @ rest)), replicate (length rs) (- 1))"
    by (intro sed_loop_no_match) simp_all
  then show ?thesis by (simp add: sed_the_buffer_def)
qed

theorem sed_twice_when_output_has_no_match_witness:
  "sed_the_buffer [plain_rule ''a'' ''b''] ''aca'' 3 (replicate (length [plain_rule ''a'' ''b'']) (- 1)) =
     Some (''bcb'', [- 3]) \<and>
   sed_the_buffer [plain_rule ''a'' ''b''] (''bcb'' @ ''a'') (length ''bcb'')
       (replicate (length [plain_rule ''a'' ''b'']) (- 1)) =
     Some (''bcb'', replicate (length [plain_rule ''a'' ''b'']) (- 1))"
proof -
  have first: "sed_the_buffer [plain_rule ''a'' ''b''] ''aca'' 3
      (replicate (length [plain_rule ''a'' ''b'']) (- 1)) = Some (''bcb'', [- 3])"
    by (simp add: sed_the_buffer_def sed_loop.simps sed_step_def scan_rules.simps memcmp_at_def
        plain_rule_def)
  have nomatch: "\<forall>i<length ''bcb''. \<forall>j<length [plain_rule ''a'' ''b''].
      \<not> memcmp_at (''bcb'' @ ''a'') i (from_bin ([plain_rule ''a'' ''b''] ! j))"
    by (simp add: memcmp_at_def plain_rule_def less_Suc_eq numeral_3_eq_3)
  show ?thesis
    using first sed_twice_when_output_has_no_match [OF first nomatch] by simp
qed

text \<open>
  C5 as written fails: with the single unlimited rule \<^verbatim>\<open>s/a/aa\<close> the buffer \<open>a\<close> becomes
  \<open>aa\<close>, and a second pass over \<open>aa\<close> gives \<open>aaaa\<close>.
\<close>

theorem sed_twice_differs_from_once:
  "sed_the_buffer [plain_rule ''a'' ''aa''] ''a'' 1 [- 1] = Some (''aa'', [- 2]) \<and>
   sed_the_buffer [plain_rule ''a'' ''aa''] ''aa'' 2 [- 1] = Some (''aaaa'', [- 3]) \<and>
   ''aaaa'' \<noteq> ''aa''"
  by (simp add: sed_the_buffer_def sed_loop.simps sed_step_def scan_rules.simps memcmp_at_def
      plain_rule_def)

lemma sed_loop_expand:
  "i \<le> n \<Longrightarrow> n - i \<le> unat l \<Longrightarrow>
   sed_loop [plain_rule ''a'' ''bb''] (replicate n (CHR ''a'')) n i [l] b2 =
     Some (b2 @ replicate (2 * (n - i)) (CHR ''b''), [l - of_nat (n - i)])"
proof (induction "n - i" arbitrary: i l b2)
  case 0
  then show ?case by (simp add: sed_loop_done)
next
  case (Suc k)
  then have lt: "i < n" and k: "k = n - (i + 1)" by simp_all
  from Suc.prems Suc.hyps(2) have l0: "l \<noteq> 0" by (auto simp: unat_eq_0)
  have hit: "memcmp_at (replicate n (CHR ''a'')) i (from_bin ([plain_rule ''a'' ''bb''] ! 0))"
  proof -
    have "take (Suc 0) (drop i (replicate n (CHR ''a''))) = ''a''"
      using lt by (cases "n - i") simp_all
    then show ?thesis by (simp add: memcmp_at_def plain_rule_def)
  qed
  have "scan_rules [plain_rule ''a'' ''bb''] [l] (replicate n (CHR ''a'')) i 0 = Some 0"
    using hit l0 by (simp add: scan_rules_Some_iff)
  then have st: "sed_step [plain_rule ''a'' ''bb''] (replicate n (CHR ''a'')) i [l] b2 =
      (i + 1, [l - 1], b2 @ ''bb'')"
    by (simp add: sed_step_def plain_rule_def)
  have ul: "unat (l - 1) = unat l - 1" using l0 by (simp add: unat_minus_one)
  have "sed_loop [plain_rule ''a'' ''bb''] (replicate n (CHR ''a'')) n i [l] b2 =
        sed_loop [plain_rule ''a'' ''bb''] (replicate n (CHR ''a'')) n (i + 1) [l - 1] (b2 @ ''bb'')"
    using lt st by (rule sed_loop_step)
  also have "\<dots> = Some ((b2 @ ''bb'') @ replicate (2 * (n - (i + 1))) (CHR ''b''),
      [l - 1 - of_nat (n - (i + 1))])"
    using Suc.hyps(1) [OF k, of "l - 1" "b2 @ ''bb''"] lt Suc.prems ul by simp
  also have "(b2 @ ''bb'') @ replicate (2 * (n - (i + 1))) (CHR ''b'') =
      b2 @ replicate (2 * (n - i)) (CHR ''b'')"
  proof -
    have "n - i = Suc (n - (i + 1))" using lt by simp
    then show ?thesis by simp
  qed
  also have "l - 1 - of_nat (n - (i + 1)) = l - of_nat (n - i)"
  proof -
    have "n - i = Suc (n - (i + 1))" using lt by simp
    then show ?thesis by simp
  qed
  finally show ?case .
qed

text \<open>
  C10 fails on the code: with the rule \<^verbatim>\<open>s/a/bb\<close> and a read of \<^verbatim>\<open>MAX_BUF\<close> bytes \<open>a\<close>, the
  engine stores \<open>2 * MAX_BUF\<close> bytes from \<^verbatim>\<open>b2[0]\<close> on, in an array of \<^verbatim>\<open>MAX_BUF\<close> bytes, and
  returns that size.
\<close>

theorem output_overflows_b2:
  "sed_the_buffer [plain_rule ''a'' ''bb''] (replicate MAX_BUF (CHR ''a'')) MAX_BUF [- 1] =
     Some (replicate (2 * MAX_BUF) (CHR ''b''), [- 1 - of_nat MAX_BUF]) \<and>
   MAX_BUF < length (replicate (2 * MAX_BUF) (CHR ''b''))"
proof -
  have "MAX_BUF - 0 \<le> unat (- 1 :: cint)"
    by (simp add: MAX_BUF_def unsigned_minus_1_eq_mask mask_eq_exp_minus_1)
  then have "sed_loop [plain_rule ''a'' ''bb''] (replicate MAX_BUF (CHR ''a'')) MAX_BUF 0 [- 1] [] =
     Some ([] @ replicate (2 * (MAX_BUF - 0)) (CHR ''b''), [- 1 - of_nat (MAX_BUF - 0)])"
    by (intro sed_loop_expand) simp_all
  then show ?thesis by (simp add: sed_the_buffer_def MAX_BUF_def)
qed

lemma scan_single:
  "scan_rules [r] [l] bf i 0 = (if memcmp_at bf i (from_bin r) \<and> l \<noteq> 0 then Some 0 else None)"
  by (simp add: scan_rules.simps)

lemma sed_loop_skip:
  assumes "i + m \<le> siz" and "siz \<le> length bf"
    and "\<forall>k. i \<le> k \<and> k < i + m \<longrightarrow> scan_rules rs lv bf k 0 = None"
  shows "sed_loop rs bf siz i lv b2 = sed_loop rs bf siz (i + m) lv (b2 @ take m (drop i bf))"
  using assms
proof (induction m arbitrary: i b2)
  case 0
  then show ?case by simp
next
  case (Suc m)
  then have lt: "i < siz" by simp
  have miss: "scan_rules rs lv bf i 0 = None" using Suc.prems by simp
  have "sed_loop rs bf siz i lv b2 = sed_loop rs bf siz (i + 1) lv (b2 @ [bf ! i])"
    using lt miss by (rule sed_loop_step [OF _ sed_step_miss])
  also have "\<dots> = sed_loop rs bf siz (i + 1 + m) lv ((b2 @ [bf ! i]) @ take m (drop (i + 1) bf))"
    using Suc.prems by (intro Suc.IH) simp_all
  also have "(b2 @ [bf ! i]) @ take m (drop (i + 1) bf) = b2 @ take (Suc m) (drop i bf)"
  proof -
    have "i < length bf" using lt Suc.prems(2) by simp
    then have "drop i bf = bf ! i # drop (i + 1) bf"
      by (simp add: Cons_nth_drop_Suc)
    then show ?thesis by simp
  qed
  finally show ?case by simp
qed

lemma replace_first_0: "replace_first 0 X Y gaps = with_occurrences X gaps"
  by (induction X gaps rule: with_occurrences.induct) simp_all

lemma memcmp_at_append_pre: "memcmp_at (pre @ bf) (length pre + p) X = memcmp_at bf p X"
  by (simp add: memcmp_at_def)

lemma take_drop_append_left:
  "p + m \<le> length a \<Longrightarrow> take m (drop p (a @ b)) = take m (drop p a)"
  by simp

lemma memcmp_at_gap:
  assumes "X \<noteq> []" and "p < length g"
  shows "memcmp_at (g @ X @ rest) p X = memcmp_at (g @ butlast X) p X"
proof -
  define a where "a = g @ butlast X"
  have split: "g @ X @ rest = a @ (last X # rest)"
    using assms(1) by (simp add: a_def)
  have "p + length X \<le> length a" using assms by (simp add: a_def)
  then have eq: "take (length X) (drop p (a @ (last X # rest))) = take (length X) (drop p a)"
    by (rule take_drop_append_left)
  have "memcmp_at (g @ X @ rest) p X = (take (length X) (drop p (a @ (last X # rest))) = X)"
    unfolding memcmp_at_def split ..
  also have "\<dots> = (take (length X) (drop p a) = X)" unfolding eq ..
  also have "\<dots> = memcmp_at (g @ butlast X) p X" unfolding memcmp_at_def a_def ..
  finally show ?thesis .
qed

lemma memcmp_at_here: "memcmp_at (pre @ X @ rest) (length pre) X"
  by (simp add: memcmp_at_def)

lemma single_rule_loop:
  assumes "X \<noteq> []" and "gaps \<noteq> []"
    and "\<forall>g\<in>set (butlast gaps). \<forall>p<length g. \<not> memcmp_at (g @ butlast X) p X"
    and "\<forall>p<length (last gaps). \<not> memcmp_at (last gaps @ tail) p X"
    and "n < 2 ^ 32"
  shows "sed_loop [\<lparr>from_bin = X, to_bin = Y, forig = fo, torig = to\<rparr>]
           (pre @ with_occurrences X gaps @ tail)
           (length pre + length (with_occurrences X gaps)) (length pre) [of_nat n] b2 =
         Some (b2 @ replace_first (min (length gaps - 1) n) X Y gaps,
               [of_nat (n - min (length gaps - 1) n)])"
  using assms(2-)
proof (induction gaps arbitrary: pre n b2)
  case Nil
  then show ?case by simp
next
  case (Cons g gs)
  let ?r = "\<lparr>from_bin = X, to_bin = Y, forig = fo, torig = to\<rparr>"
  show ?case
  proof (cases gs)
    case Nil
    let ?bf = "pre @ g @ tail"
    have none: "\<forall>k. length pre \<le> k \<and> k < length pre + length g \<longrightarrow>
        scan_rules [?r] [of_nat n] ?bf k 0 = None"
    proof (intro allI impI)
      fix k assume k: "length pre \<le> k \<and> k < length pre + length g"
      then obtain p where p: "k = length pre + p" "p < length g"
        by (metis add_diff_inverse_nat less_diff_conv2 not_less add.commute)
      with Cons.prems(3) Nil have "\<not> memcmp_at (g @ tail) p X" by simp
      then have "\<not> memcmp_at ?bf k X" by (simp add: p memcmp_at_append_pre)
      then show "scan_rules [?r] [of_nat n] ?bf k 0 = None" by (simp add: scan_single)
    qed
    have "sed_loop [?r] ?bf (length pre + length g) (length pre) [of_nat n] b2 =
        sed_loop [?r] ?bf (length pre + length g) (length pre + length g) [of_nat n]
          (b2 @ take (length g) (drop (length pre) ?bf))"
      using none by (intro sed_loop_skip) simp_all
    also have "\<dots> = Some (b2 @ g, [of_nat n])" by (simp add: sed_loop_done)
    finally show ?thesis using Nil by simp
  next
    case (Cons g' gs')
    let ?W = "with_occurrences X (g' # gs')"
    let ?bf = "pre @ g @ X @ ?W @ tail"
    let ?siz = "length pre + length g + length X + length ?W"
    have bf: "pre @ with_occurrences X (g # gs) @ tail = ?bf" using Cons by simp
    have siz: "length pre + length (with_occurrences X (g # gs)) = ?siz" using Cons by simp
    show ?thesis
    proof (cases "n = 0")
      case True
      have "sed_loop [?r] ?bf ?siz (length pre) [0] b2 =
          Some (b2 @ take (?siz - length pre) (drop (length pre) ?bf), [0])"
        by (intro sed_loop_no_match) (simp_all add: scan_single)
      then show ?thesis unfolding bf siz using True Cons
        by (simp add: replace_first_0)
    next
      case False
      then have npos: "0 < n" by simp
      have nz: "(of_nat n :: cint) \<noteq> 0"
        using npos \<open>n < 2 ^ 32\<close> by (simp add: of_nat_neq_0)
      have none: "\<forall>k. length pre \<le> k \<and> k < length pre + length g \<longrightarrow>
          scan_rules [?r] [of_nat n] ?bf k 0 = None"
      proof (intro allI impI)
        fix k assume k: "length pre \<le> k \<and> k < length pre + length g"
        then obtain p where p: "k = length pre + p" "p < length g"
          by (metis add_diff_inverse_nat less_diff_conv2 not_less add.commute)
        from Cons.prems(2) Cons p(2) have "\<not> memcmp_at (g @ butlast X) p X" by simp
        then have "\<not> memcmp_at (g @ X @ ?W @ tail) p X"
          using memcmp_at_gap [OF assms(1) p(2), of "?W @ tail"] by simp
        then have "\<not> memcmp_at ?bf k X" by (simp add: p memcmp_at_append_pre)
        then show "scan_rules [?r] [of_nat n] ?bf k 0 = None" by (simp add: scan_single)
      qed
      have skip: "sed_loop [?r] ?bf ?siz (length pre) [of_nat n] b2 =
          sed_loop [?r] ?bf ?siz (length pre + length g) [of_nat n]
            (b2 @ take (length g) (drop (length pre) ?bf))"
        using none by (intro sed_loop_skip) simp_all
      have hit: "memcmp_at ?bf (length pre + length g) X"
        using memcmp_at_here [of "pre @ g" X "?W @ tail"] by simp
      have step: "sed_step [?r] ?bf (length pre + length g) [of_nat n] (b2 @ g) =
          (length pre + length g + length X, [of_nat n - 1], b2 @ g @ Y)"
        using hit nz by (simp add: sed_step_def scan_single)
      have dec: "(of_nat n - 1 :: cint) = of_nat (n - 1)" using npos by simp
      have "sed_loop [?r] ?bf ?siz (length pre) [of_nat n] b2 =
          sed_loop [?r] ?bf ?siz (length pre + length g) [of_nat n] (b2 @ g)"
        using skip by simp
      also have "\<dots> = sed_loop [?r] ?bf ?siz (length pre + length g + length X) [of_nat (n - 1)]
          (b2 @ g @ Y)"
        using sed_loop_step [OF _ step, of ?siz] assms(1) Cons dec by simp
      also have "\<dots> = Some ((b2 @ g @ Y) @
            replace_first (min (length (g' # gs') - 1) (n - 1)) X Y (g' # gs'),
          [of_nat (n - 1 - min (length (g' # gs') - 1) (n - 1))])"
      proof -
        have a: "g' # gs' \<noteq> []" by simp
        have b: "\<forall>h\<in>set (butlast (g' # gs')). \<forall>p<length h. \<not> memcmp_at (h @ butlast X) p X"
          using Cons.prems(2) Cons by simp
        have c: "\<forall>p<length (last (g' # gs')). \<not> memcmp_at (last (g' # gs') @ tail) p X"
          using Cons.prems(3) Cons by simp
        have d: "n - 1 < 2 ^ 32" using \<open>n < 2 ^ 32\<close> by simp
        from Cons.IH [unfolded Cons, OF a b c d, of "pre @ g @ X" "b2 @ g @ Y"]
        show ?thesis by (simp add: add.assoc)
      qed
      finally have "sed_loop [?r] ?bf ?siz (length pre) [of_nat n] b2 =
          Some ((b2 @ g @ Y) @ replace_first (min (length (g' # gs') - 1) (n - 1)) X Y (g' # gs'),
            [of_nat (n - 1 - min (length (g' # gs') - 1) (n - 1))])" .
      moreover have "min (length (g # gs) - 1) n = Suc (min (length (g' # gs') - 1) (n - 1))"
        using npos Cons by simp
      ultimately show ?thesis unfolding bf siz using Cons by simp
    qed
  qed
qed

text \<open>
  A single rule \<^verbatim>\<open>s/X/Y/n\<close> on a chunk with \<open>k\<close> occurrences of \<open>X\<close>, the leftmost ones (no
  occurrence begins inside a gap), when no occurrence begins inside the last gap, not
  even one that the bytes \<open>tail\<close> behind the chunk complete: the \<open>min k n\<close> leftmost
  occurrences are replaced and the counter goes down by \<open>min k n\<close>. The example is the
  expiry scene of the test suite.
\<close>

lemma single_rule_counts:
  assumes "X \<noteq> []" and "gaps \<noteq> []"
    and "\<forall>g\<in>set (butlast gaps). \<forall>p<length g. \<not> memcmp_at (g @ butlast X) p X"
    and "\<forall>p<length (last gaps). \<not> memcmp_at (last gaps @ tail) p X"
    and "n < 2 ^ 32"
  shows "sed_the_buffer [\<lparr>from_bin = X, to_bin = Y, forig = fo, torig = to\<rparr>]
           (with_occurrences X gaps @ tail) (length (with_occurrences X gaps)) [of_nat n] =
         Some (replace_first (min (length gaps - 1) n) X Y gaps,
               [of_nat (n - min (length gaps - 1) n)])"
  using single_rule_loop [OF assms, of Y fo to "[]" "[]"] by (simp add: sed_the_buffer_def)

lemma single_rule_counts_example:
  "sed_the_buffer [plain_rule ''andrew'' ''mike''] ''test andrew and andrew'' 22 [1] =
     Some (''test mike and andrew'', [0])"
  by (simp add: sed_the_buffer_def sed_loop.simps sed_step_def scan_rules.simps memcmp_at_def
      plain_rule_def)

text \<open>
  C6 fails on the code: the array still holds \<open>andrew\<close> from an earlier read, the current
  read brought the three bytes \<open>and\<close>, which hold no occurrence of \<open>andrew\<close>, and yet the
  rule \<^verbatim>\<open>s/andrew/mike/1\<close> is applied and its counter goes from \<open>1\<close> to \<open>0\<close>.
\<close>

theorem stale_bytes_complete_a_match:
  "take 3 ''andrew'' = ''and'' \<and>
   sed_the_buffer [plain_rule ''andrew'' ''mike''] ''andrew'' 3 [1] = Some (''mike'', [0])"
  by (simp add: sed_the_buffer_def sed_loop.simps sed_step_def scan_rules.simps memcmp_at_def
      plain_rule_def)

subsection \<open>The rule parser\<close>

lemma strchr_hex_toupper: "\<forall>c. c \<noteq> NUL \<longrightarrow> strchr hex (toupper c) = hex_digit_val c"
  by code_simp

lemma percent_not_NUL: "CHR ''%'' \<noteq> NUL"
  by (simp add: NUL_def)

lemma store_ok: "k < n \<Longrightarrow> store sd n arr (int k) c = Inr (arr(k := c))"
  by (simp add: store_def)

lemma stored_emit: "stored arr k (emit c r) = stored (arr(k := c)) (Suc k) r"
  by (cases r) (simp_all add: emit_def stored_def)

lemma stored_Inr [simp]: "stored arr k (Inr bs) = Inr (put arr k bs, int (k + length bs))"
  by (simp add: stored_def)

lemma stored_Inl [simp]: "stored arr k (Inl e) = Inl e"
  by (simp add: stored_def)

lemma shrink_loop_done: "\<not> i < length s \<Longrightarrow> shrink_loop sd s i arr fs = Inr (arr, fs)"
  by (subst shrink_loop.simps) simp

lemma shrink_loop_plain:
  "i < length s \<Longrightarrow> c_at s i \<noteq> CHR ''%'' \<Longrightarrow>
   shrink_loop sd s i arr fs =
     (case store sd (length s) arr fs (c_at s i) of
        Inl e \<Rightarrow> Inl e
      | Inr arr' \<Rightarrow> shrink_loop sd s (i + 1) arr' (fs + 1))"
  by (subst shrink_loop.simps) simp

lemma shrink_loop_percent:
  "i < length s \<Longrightarrow> c_at s i = CHR ''%'' \<Longrightarrow> c_at s (i + 1) = CHR ''%'' \<Longrightarrow>
   shrink_loop sd s i arr fs =
     (case store sd (length s) arr fs (CHR ''%'') of
        Inl e \<Rightarrow> Inl e
      | Inr arr' \<Rightarrow> shrink_loop sd s (i + 2) arr' (fs + 1))"
  by (subst shrink_loop.simps) simp

lemma shrink_loop_end1:
  "i < length s \<Longrightarrow> c_at s i = CHR ''%'' \<Longrightarrow> c_at s (i + 1) = NUL \<Longrightarrow>
   shrink_loop sd s i arr fs = Inl (Unexpected_end sd)"
  by (subst shrink_loop.simps) (simp add: percent_not_NUL [symmetric])

lemma shrink_loop_end2:
  "i < length s \<Longrightarrow> c_at s i = CHR ''%'' \<Longrightarrow> c_at s (i + 1) \<noteq> CHR ''%'' \<Longrightarrow>
   c_at s (i + 2) = NUL \<Longrightarrow> shrink_loop sd s i arr fs = Inl (Unexpected_end sd)"
  by (subst shrink_loop.simps) simp

lemma shrink_loop_hex:
  "i < length s \<Longrightarrow> c_at s i = CHR ''%'' \<Longrightarrow> c_at s (i + 1) \<noteq> CHR ''%'' \<Longrightarrow>
   c_at s (i + 1) \<noteq> NUL \<Longrightarrow> c_at s (i + 2) \<noteq> NUL \<Longrightarrow>
   shrink_loop sd s i arr fs =
     (case strchr hex (toupper (c_at s (i + 1))) of
        None \<Rightarrow> Inl (Non_hex sd)
      | Some x1 \<Rightarrow>
          (case strchr hex (toupper (c_at s (i + 2))) of
             None \<Rightarrow> Inl (Non_hex sd)
           | Some x2 \<Rightarrow>
               (case store sd (length s) arr fs (char_of (x1 * 16 + x2)) of
                  Inl e \<Rightarrow> Inl e
                | Inr arr' \<Rightarrow> shrink_loop sd s (i + 3) arr' (fs + 1))))"
  by (subst shrink_loop.simps) simp

lemma shrink_step_plain:
  "i < length s \<Longrightarrow> c_at s i \<noteq> CHR ''%'' \<Longrightarrow> k < length s \<Longrightarrow>
   shrink_loop sd s i arr (int k) = shrink_loop sd s (i + 1) (arr(k := c_at s i)) (int (Suc k))"
  by (simp add: shrink_loop_plain store_ok add.commute)

lemma shrink_step_percent:
  "i < length s \<Longrightarrow> c_at s i = CHR ''%'' \<Longrightarrow> c_at s (i + 1) = CHR ''%'' \<Longrightarrow> k < length s \<Longrightarrow>
   shrink_loop sd s i arr (int k) = shrink_loop sd s (i + 2) (arr(k := CHR ''%'')) (int (Suc k))"
  by (simp add: shrink_loop_percent store_ok add.commute)

lemma shrink_step_hex:
  "i < length s \<Longrightarrow> c_at s i = CHR ''%'' \<Longrightarrow> c_at s (i + 1) \<noteq> CHR ''%'' \<Longrightarrow>
   c_at s (i + 1) \<noteq> NUL \<Longrightarrow> c_at s (i + 2) \<noteq> NUL \<Longrightarrow>
   strchr hex (toupper (c_at s (i + 1))) = Some x1 \<Longrightarrow>
   strchr hex (toupper (c_at s (i + 2))) = Some x2 \<Longrightarrow> k < length s \<Longrightarrow>
   shrink_loop sd s i arr (int k) =
     shrink_loop sd s (i + 3) (arr(k := char_of (x1 * 16 + x2))) (int (Suc k))"
  by (simp add: shrink_loop_hex store_ok add.commute)

lemma shrink_step_nonhex:
  "i < length s \<Longrightarrow> c_at s i = CHR ''%'' \<Longrightarrow> c_at s (i + 1) \<noteq> CHR ''%'' \<Longrightarrow>
   c_at s (i + 1) \<noteq> NUL \<Longrightarrow> c_at s (i + 2) \<noteq> NUL \<Longrightarrow>
   strchr hex (toupper (c_at s (i + 1))) = None \<or> strchr hex (toupper (c_at s (i + 2))) = None \<Longrightarrow>
   shrink_loop sd s i arr fs = Inl (Non_hex sd)"
  by (auto simp: shrink_loop_hex split: option.splits)

lemma shrink_loop_refines:
  "NUL \<notin> set suf \<Longrightarrow> k \<le> length pre \<Longrightarrow>
   shrink_loop sd (pre @ suf) (length pre) arr (int k) = stored arr k (escape_decode sd suf)"
proof (induction sd suf arbitrary: pre arr k rule: escape_decode.induct)
  case (1 sd)
  show ?case by (simp add: shrink_loop_done)
next
  case (2 sd c)
  let ?s = "pre @ [c]"
  have lt: "length pre < length ?s" by simp
  have kn: "k < length ?s" using "2.prems"(2) by simp
  have c0: "c_at ?s (length pre) = c"
    by (simp add: c_at_def nth_append)
  have c1: "c_at ?s (length pre + 1) = NUL"
    by (simp add: c_at_def)
  show ?case
  proof (cases "c = CHR ''%''")
    case True
    have "shrink_loop sd ?s (length pre) arr (int k) = Inl (Unexpected_end sd)"
      using lt c0 c1 True by (intro shrink_loop_end1) simp_all
    then show ?thesis using True by simp
  next
    case False
    define arr1 where "arr1 = arr(k := c)"
    have np: "c_at ?s (length pre) \<noteq> CHR ''%''" unfolding c0 using False .
    have "shrink_loop sd ?s (length pre) arr (int k) =
        shrink_loop sd ?s (length pre + 1) arr1 (int (Suc k))"
      using shrink_step_plain [OF lt np kn, of sd arr] unfolding c0 arr1_def .
    also have "\<dots> = Inr (arr1, int (Suc k))" by (simp add: shrink_loop_done)
    also have "\<dots> = stored arr k (Inr [c])" by (simp add: arr1_def)
    finally show ?thesis using False by simp
  qed
next
  case (3 sd c d)
  from "3.prems" have d: "d \<noteq> NUL" by auto
  let ?s = "pre @ [c, d]"
  have lt: "length pre < length ?s" by simp
  have kn: "k < length ?s" using "3.prems"(2) by simp
  have c0: "c_at ?s (length pre) = c"
    by (simp add: c_at_def nth_append)
  have c1: "c_at ?s (length pre + 1) = d"
    by (simp add: c_at_def nth_append)
  have c2: "c_at ?s (length pre + 2) = NUL"
    by (simp add: c_at_def)
  show ?case
  proof (cases "c = CHR ''%''")
    case False
    define arr1 where "arr1 = arr(k := c)"
    have np: "c_at ?s (length pre) \<noteq> CHR ''%''" unfolding c0 using False .
    have "shrink_loop sd ?s (length pre) arr (int k) =
        shrink_loop sd ?s (length pre + 1) arr1 (int (Suc k))"
      using shrink_step_plain [OF lt np kn, of sd arr] unfolding c0 arr1_def .
    also have "\<dots> = stored arr1 (Suc k) (escape_decode sd [d])"
      using "3.IH" [where pre = "pre @ [c]" and k = "Suc k" and arr = arr1, OF False] "3.prems"
      by simp
    also have "\<dots> = stored arr k (emit c (escape_decode sd [d]))"
      by (simp only: stored_emit arr1_def)
    also have "emit c (escape_decode sd [d]) = escape_decode sd [c, d]"
      using False by simp
    finally show ?thesis .
  next
    case pc: True
    show ?thesis
    proof (cases "d = CHR ''%''")
      case True
      define arr1 where "arr1 = arr(k := CHR ''%'')"
      have p0: "c_at ?s (length pre) = CHR ''%''" unfolding c0 using pc .
      have p1: "c_at ?s (length pre + 1) = CHR ''%''" unfolding c1 using True .
      have "shrink_loop sd ?s (length pre) arr (int k) =
          shrink_loop sd ?s (length pre + 2) arr1 (int (Suc k))"
        using shrink_step_percent [OF lt p0 p1 kn, of sd arr] unfolding arr1_def .
      also have "\<dots> = Inr (arr1, int (Suc k))" by (simp add: shrink_loop_done)
      also have "\<dots> = stored arr k (Inr [CHR ''%''])" by (simp add: arr1_def)
      finally show ?thesis using pc True by simp
    next
      case False
      have "shrink_loop sd ?s (length pre) arr (int k) = Inl (Unexpected_end sd)"
        using lt c0 c1 c2 pc False by (intro shrink_loop_end2) simp_all
      then show ?thesis using pc False by simp
    qed
  qed
next
  case (4 sd c d e es)
  from "4.prems" have d: "d \<noteq> NUL" and e: "e \<noteq> NUL" by auto
  let ?s = "pre @ c # d # e # es"
  have lt: "length pre < length ?s" by simp
  have kn: "k < length ?s" using "4.prems"(2) by simp
  have c0: "c_at ?s (length pre) = c"
    by (simp add: c_at_def nth_append)
  have c1: "c_at ?s (length pre + 1) = d"
    by (simp add: c_at_def nth_append)
  have c2: "c_at ?s (length pre + 2) = e"
    by (simp add: c_at_def nth_append)
  have hd: "strchr hex (toupper d) = hex_digit_val d" using strchr_hex_toupper d by blast
  have he: "strchr hex (toupper e) = hex_digit_val e" using strchr_hex_toupper e by blast
  show ?case
  proof (cases "c = CHR ''%''")
    case False
    define arr1 where "arr1 = arr(k := c)"
    have np: "c_at ?s (length pre) \<noteq> CHR ''%''" unfolding c0 using False .
    have "shrink_loop sd ?s (length pre) arr (int k) =
        shrink_loop sd ?s (length pre + 1) arr1 (int (Suc k))"
      using shrink_step_plain [OF lt np kn, of sd arr] unfolding c0 arr1_def .
    also have "\<dots> = stored arr1 (Suc k) (escape_decode sd (d # e # es))"
      using "4.IH"(3) [where pre = "pre @ [c]" and k = "Suc k" and arr = arr1, OF False] "4.prems"
      by simp
    also have "\<dots> = stored arr k (emit c (escape_decode sd (d # e # es)))"
      by (simp only: stored_emit arr1_def)
    also have "emit c (escape_decode sd (d # e # es)) = escape_decode sd (c # d # e # es)"
      using False by simp
    finally show ?thesis .
  next
    case pc: True
    have p0: "c_at ?s (length pre) = CHR ''%''" unfolding c0 using pc .
    show ?thesis
    proof (cases "d = CHR ''%''")
      case True
      define arr1 where "arr1 = arr(k := CHR ''%'')"
      have p1: "c_at ?s (length pre + 1) = CHR ''%''" unfolding c1 using True .
      have "shrink_loop sd ?s (length pre) arr (int k) =
          shrink_loop sd ?s (length pre + 2) arr1 (int (Suc k))"
        using shrink_step_percent [OF lt p0 p1 kn, of sd arr] unfolding arr1_def .
      also have "\<dots> = stored arr1 (Suc k) (escape_decode sd (e # es))"
        using "4.IH"(1) [where pre = "pre @ [c, d]" and k = "Suc k" and arr = arr1, OF pc True]
          "4.prems" by simp
      also have "\<dots> = stored arr k (emit (CHR ''%'') (escape_decode sd (e # es)))"
        by (simp only: stored_emit arr1_def)
      also have "emit (CHR ''%'') (escape_decode sd (e # es)) = escape_decode sd (c # d # e # es)"
        using pc True by simp
      finally show ?thesis .
    next
      case False
      have a1: "c_at ?s (length pre + 1) \<noteq> CHR ''%''" unfolding c1 using False .
      have a2: "c_at ?s (length pre + 1) \<noteq> NUL" unfolding c1 using d .
      have a3: "c_at ?s (length pre + 2) \<noteq> NUL" unfolding c2 using e .
      show ?thesis
      proof (cases "hex_digit_val d = None \<or> hex_digit_val e = None")
        case True
        then have "strchr hex (toupper (c_at ?s (length pre + 1))) = None \<or>
            strchr hex (toupper (c_at ?s (length pre + 2))) = None"
          unfolding c1 c2 hd he .
        from shrink_step_nonhex [OF lt p0 a1 a2 a3 this]
        have "shrink_loop sd ?s (length pre) arr (int k) = Inl (Non_hex sd)" .
        moreover have "escape_decode sd (c # d # e # es) = Inl (Non_hex sd)"
          using pc False True by (auto split: option.splits)
        ultimately show ?thesis by simp
      next
        case both: False
        then obtain h l where dh: "hex_digit_val d = Some h" and el: "hex_digit_val e = Some l"
          by auto
        define b where "b = (char_of (h * 16 + l) :: char)"
        define arr1 where "arr1 = arr(k := b)"
        have x1: "strchr hex (toupper (c_at ?s (length pre + 1))) = Some h"
          unfolding c1 hd using dh .
        have x2: "strchr hex (toupper (c_at ?s (length pre + 2))) = Some l"
          unfolding c2 he using el .
        have "shrink_loop sd ?s (length pre) arr (int k) =
            shrink_loop sd ?s (length pre + 3) arr1 (int (Suc k))"
          using shrink_step_hex [OF lt p0 a1 a2 a3 x1 x2 kn, of sd arr] unfolding arr1_def b_def .
        also have "\<dots> = stored arr1 (Suc k) (escape_decode sd es)"
          using "4.IH"(2) [where pre = "pre @ [c, d, e]" and k = "Suc k" and arr = arr1,
              OF pc False _ dh el] "4.prems"
          by (simp add: numeral_3_eq_3)
        also have "\<dots> = stored arr k (emit b (escape_decode sd es))"
          by (simp only: stored_emit arr1_def)
        also have "emit b (escape_decode sd es) = escape_decode sd (c # d # e # es)"
          using pc False dh el by (simp add: b_def mult.commute)
        finally show ?thesis .
      qed
    qed
  qed
qed


lemma put_below: "j < k \<Longrightarrow> put arr k bs j = arr j"
  by (induction bs arbitrary: arr k) simp_all

lemma put_at: "j < length bs \<Longrightarrow> put arr k bs (k + j) = bs ! j"
proof (induction bs arbitrary: arr k j)
  case Nil
  then show ?case by simp
next
  case (Cons b bs)
  show ?case
  proof (cases j)
    case 0
    then show ?thesis by (simp add: put_below)
  next
    case (Suc j')
    with Cons.prems have j': "j' < length bs" by simp
    define arr1 where "arr1 = arr(k := b)"
    have "put arr1 (Suc k) bs (Suc k + j') = bs ! j'" using j' by (rule Cons.IH)
    then show ?thesis using Suc by (simp add: arr1_def)
  qed
qed

lemma put_read: "map (put arr 0 bs) [0..<length bs] = bs"
proof (rule nth_equalityI)
  show "length (map (put arr 0 bs) [0..<length bs]) = length bs" by simp
next
  fix j assume "j < length (map (put arr 0 bs) [0..<length bs])"
  then have j: "j < length bs" by simp
  from put_at [OF j, of arr 0] j show "map (put arr 0 bs) [0..<length bs] ! j = bs ! j" by simp
qed

lemma escape_decode_length: "escape_decode sd s = Inr bs \<Longrightarrow> length bs \<le> length s"
proof (induction sd s arbitrary: bs rule: escape_decode.induct)
  case (1 sd)
  then show ?case by simp
next
  case (2 sd c)
  then show ?case by (auto split: if_splits)
next
  case (3 sd c d)
  then show ?case by (auto simp: emit_def split: if_splits sum.splits)
next
  case (4 sd c d e es)
  then show ?case
    by (auto simp: emit_def split: if_splits sum.splits option.splits) force+
qed

lemma shrink_loop_from_zero:
  assumes "NUL \<notin> set s"
  shows "shrink_loop sd s 0 arr 0 = stored arr 0 (escape_decode sd s)"
  using shrink_loop_refines [OF assms, of 0 "[]" sd arr] by simp

text \<open>
  When both counters are found at zero, \<^verbatim>\<open>shrink_to_binary\<close> decodes the two patterns by
  the same rules, which are those of \<open>escape_decode\<close>, for patterns that are C strings
  (no NUL) and arrays that could be allocated.
\<close>

lemma shrink_to_binary_from_zero:
  assumes "NUL \<notin> set fo" and "NUL \<notin> set to"
    and "malloc_ok (length fo)" and "malloc_ok (length to)"
    and "fs0 m = 0" and "ts0 m = 0"
  shows "shrink_to_binary malloc_ok m fo to =
    (case escape_decode Src fo of
       Inl e \<Rightarrow> Inl e
     | Inr f \<Rightarrow>
         (case escape_decode Dst to of
            Inl e \<Rightarrow> Inl e
          | Inr t \<Rightarrow> Inr \<lparr>from_bin = f, to_bin = t, forig = fo, torig = to\<rparr>))"
proof (cases "escape_decode Src fo")
  case (Inl e)
  then show ?thesis using assms
    by (simp add: shrink_to_binary_def shrink_loop_from_zero)
next
  case f: (Inr f)
  show ?thesis
  proof (cases "escape_decode Dst to")
    case (Inl e)
    then show ?thesis using assms f
      by (simp add: shrink_to_binary_def shrink_loop_from_zero)
  next
    case t: (Inr t)
    have lf: "length f \<le> length fo" using f by (rule escape_decode_length)
    have lt: "length t \<le> length to" using t by (rule escape_decode_length)
    have rf: "map (put (from0 m) 0 f) [0..<length f] = f" by (rule put_read)
    have rt: "map (put (to0 m) 0 t) [0..<length t] = t" by (rule put_read)
    show ?thesis using assms f t lf lt rf rt
      by (simp add: shrink_to_binary_def shrink_loop_from_zero)
  qed
qed

lemma shrink_plain_zeroed:
  "shrink_to_binary (\<lambda>n. True) zeroed ''a'' ''b'' = Inr (plain_rule ''a'' ''b'')"
proof -
  have "NUL \<notin> set ''a''" "NUL \<notin> set ''b''" by (simp_all add: NUL_def)
  from shrink_to_binary_from_zero [OF this, of "\<lambda>n. True" zeroed]
  show ?thesis by (simp add: zeroed_def plain_rule_def)
qed

lemma split_slash_Some:
  "split_slash s = Some (a, b) \<Longrightarrow> s = a @ ''/'' @ b \<and> CHR ''/'' \<notin> set a"
proof -
  assume h: "split_slash s = Some (a, b)"
  then have mem: "CHR ''/'' \<in> set s"
    by (simp add: split_slash_def split: if_splits)
  from h mem have a: "a = takeWhile (\<lambda>c. c \<noteq> CHR ''/'') s"
    and b: "b = tl (dropWhile (\<lambda>c. c \<noteq> CHR ''/'') s)"
    by (simp_all add: split_slash_def)
  from mem have ne: "dropWhile (\<lambda>c. c \<noteq> CHR ''/'') s \<noteq> []" by simp
  then have hd: "hd (dropWhile (\<lambda>c. c \<noteq> CHR ''/'') s) = CHR ''/''"
    using hd_dropWhile [of "\<lambda>c. c \<noteq> CHR ''/''" s] by simp
  have "s = takeWhile (\<lambda>c. c \<noteq> CHR ''/'') s @ dropWhile (\<lambda>c. c \<noteq> CHR ''/'') s" by simp
  also have "dropWhile (\<lambda>c. c \<noteq> CHR ''/'') s = CHR ''/'' # b"
    using ne hd b by (cases "dropWhile (\<lambda>c. c \<noteq> CHR ''/'') s") simp_all
  finally have "s = a @ ''/'' @ b" using a by simp
  moreover have "CHR ''/'' \<notin> set a"
    unfolding a by (auto dest: set_takeWhileD)
  ultimately show ?thesis by simp
qed

lemma split_slash_append:
  "CHR ''/'' \<notin> set a \<Longrightarrow> split_slash (a @ ''/'' @ b) = Some (a, b)"
  by (induction a) (auto simp: split_slash_def)

lemma split_slash_None: "CHR ''/'' \<notin> set a \<Longrightarrow> split_slash a = None"
  by (simp add: split_slash_def)

text \<open>
  C7 fails on the code: \<^verbatim>\<open>shrink_to_binary\<close> stores and counts from the values it finds in
  \<^verbatim>\<open>r->fs\<close> and \<^verbatim>\<open>r->ts\<close>, which nothing has set. Found at \<open>1\<close>, the counter makes the one byte
  of the pattern \<open>a\<close> of the rule \<^verbatim>\<open>s/a/b\<close> land outside its array of one byte; and the
  pattern \<open>%41\<close> of the rule \<^verbatim>\<open>s/%41/b\<close>, which stands for the one byte \<open>A\<close>, becomes the two
  bytes at \<^verbatim>\<open>from\<close>, a byte nobody wrote and \<open>A\<close>. Neither pattern has a bad escape.
\<close>

theorem uninitialised_counters_misplace_the_pattern:
  "escape_decode Src ''a'' = Inr ''a'' \<and>
   parse_rule (\<lambda>n. True)
     \<lparr>fs0 = 1, ts0 = 0, from0 = (\<lambda>k. CHR ''?''), to0 = (\<lambda>k. CHR ''?'')\<rparr> ''s/a/b'' =
     Inl (Wild_store Src) \<and>
   escape_decode Src ''%41'' = Inr ''A'' \<and>
   parse_rule (\<lambda>n. True)
     \<lparr>fs0 = 1, ts0 = 0, from0 = (\<lambda>k. CHR ''?''), to0 = (\<lambda>k. CHR ''?'')\<rparr> ''s/%41/b'' =
     Inr (\<lparr>from_bin = ''?A'', to_bin = ''b'', forig = ''%41'', torig = ''b''\<rparr>, - 1)"
proof -
  have byte: "char_of (4 * 16 + 1 :: nat) = CHR ''A''" "char_of (16 * 4 + 1 :: nat) = CHR ''A''"
    by code_simp+
  have h4: "strchr hex (toupper (CHR ''4'')) = Some 4" and h1: "strchr hex (toupper (CHR ''1'')) = Some 1"
    by code_simp+
  have u: "[0..<2] = [0, 1]" by (simp add: upt_rec)
  have a: "escape_decode Src ''a'' = Inr ''a''" by simp
  have b: "escape_decode Src ''%41'' = Inr ''A''"
    using byte by (simp add: hex_digit_val_def emit_def)
  have c: "shrink_to_binary (\<lambda>n. True)
     \<lparr>fs0 = 1, ts0 = 0, from0 = (\<lambda>k. CHR ''?''), to0 = (\<lambda>k. CHR ''?'')\<rparr> ''a'' ''b'' =
     Inl (Wild_store Src)"
    by (simp add: shrink_to_binary_def shrink_loop.simps c_at_def store_def)
  have d: "shrink_to_binary (\<lambda>n. True)
     \<lparr>fs0 = 1, ts0 = 0, from0 = (\<lambda>k. CHR ''?''), to0 = (\<lambda>k. CHR ''?'')\<rparr> ''%41'' ''b'' =
     Inr \<lparr>from_bin = ''?A'', to_bin = ''b'', forig = ''%41'', torig = ''b''\<rparr>"
    using byte h4 h1
    by (simp add: shrink_to_binary_def shrink_loop.simps c_at_def store_def NUL_def u)
  have c': "parse_rule (\<lambda>n. True)
     \<lparr>fs0 = 1, ts0 = 0, from0 = (\<lambda>k. CHR ''?''), to0 = (\<lambda>k. CHR ''?'')\<rparr> ''s/a/b'' =
     Inl (Wild_store Src)"
    by (simp add: parse_rule_def split_slash_def c)
  have d': "parse_rule (\<lambda>n. True)
     \<lparr>fs0 = 1, ts0 = 0, from0 = (\<lambda>k. CHR ''?''), to0 = (\<lambda>k. CHR ''?'')\<rparr> ''s/%41/b'' =
     Inr (\<lparr>from_bin = ''?A'', to_bin = ''b'', forig = ''%41'', torig = ''b''\<rparr>, - 1)"
    by (simp add: parse_rule_def split_slash_def d)
  from a b c' d' show ?thesis by simp
qed

lemma empty_pattern_does_not_advance:
  "from_bin r = [] \<Longrightarrow> l \<noteq> 0 \<Longrightarrow> sed_step [r] bf i [l] b2 = (i, [l - 1], b2 @ to_bin r)"
  by (simp add: sed_step_def scan_rules.simps memcmp_at_def)

lemma empty_pattern_repeats:
  "from_bin r = [] \<Longrightarrow> i < siz \<Longrightarrow> n \<le> unat l \<Longrightarrow>
   sed_loop [r] bf siz i [l] b2 =
     sed_loop [r] bf siz i [l - of_nat n] (b2 @ concat (replicate n (to_bin r)))"
proof (induction n arbitrary: l b2)
  case 0
  show ?case by simp
next
  case (Suc n)
  from Suc.prems(3) have l0: "l \<noteq> 0" by (auto simp: unat_eq_0)
  have ul: "unat (l - 1) = unat l - 1" using l0 by (simp add: unat_minus_one)
  have "sed_loop [r] bf siz i [l] b2 = sed_loop [r] bf siz i [l - 1] (b2 @ to_bin r)"
    using Suc.prems(2) empty_pattern_does_not_advance [OF Suc.prems(1) l0] by (rule sed_loop_step)
  also have "\<dots> = sed_loop [r] bf siz i [l - 1 - of_nat n]
      ((b2 @ to_bin r) @ concat (replicate n (to_bin r)))"
    using Suc.prems ul by (intro Suc.IH) simp_all
  also have "l - 1 - of_nat n = l - of_nat (Suc n)" by simp
  finally show ?case by simp
qed

lemma concat_replicate_single: "concat (replicate n [x]) = replicate n x"
  by (induction n) simp_all

text \<open>
  C3 fails on the code: the parser has no test for an empty source pattern. With cleared
  memory and a \<^verbatim>\<open>malloc(0)\<close> that returns a pointer, \<^verbatim>\<open>s//x\<close> is accepted and gives a rule
  whose source pattern is empty; the engine then matches it at the cursor without moving
  the cursor, and on the one-byte chunk \<open>a\<close> it is, \<open>MAX_BUF + 1\<close> passes later, still at
  cursor 0 with \<open>MAX_BUF + 1\<close> bytes stored in \<^verbatim>\<open>b2\<close>.
\<close>

theorem empty_source_pattern_loops:
  "parse_rule (\<lambda>n. True) zeroed ''s//x'' =
     Inr (\<lparr>from_bin = [], to_bin = ''x'', forig = [], torig = ''x''\<rparr>, - 1) \<and>
   sed_the_buffer [\<lparr>from_bin = [], to_bin = ''x'', forig = [], torig = ''x''\<rparr>] ''a'' 1 [- 1] =
     sed_loop [\<lparr>from_bin = [], to_bin = ''x'', forig = [], torig = ''x''\<rparr>] ''a'' 1 0
       [- 1 - of_nat (MAX_BUF + 1)] (replicate (MAX_BUF + 1) (CHR ''x'')) \<and>
   MAX_BUF < length (replicate (MAX_BUF + 1) (CHR ''x''))"
proof -
  let ?r = "\<lparr>from_bin = [], to_bin = ''x'', forig = [], torig = ''x''\<rparr>"
  have nul: "NUL \<notin> set []" "NUL \<notin> set ''x''" by (simp_all add: NUL_def)
  have sh: "shrink_to_binary (\<lambda>n. True) zeroed [] ''x'' = Inr ?r"
    using shrink_to_binary_from_zero [OF nul, of "\<lambda>n. True" zeroed] by (simp add: zeroed_def)
  have p: "parse_rule (\<lambda>n. True) zeroed ''s//x'' = Inr (?r, - 1)"
    by (simp add: parse_rule_def split_slash_def sh)
  have "MAX_BUF + 1 \<le> unat (- 1 :: cint)"
    by (simp add: MAX_BUF_def unsigned_minus_1_eq_mask mask_eq_exp_minus_1)
  then have "sed_loop [?r] ''a'' 1 0 [- 1] [] =
      sed_loop [?r] ''a'' 1 0 [- 1 - of_nat (MAX_BUF + 1)]
        ([] @ concat (replicate (MAX_BUF + 1) (to_bin ?r)))"
    by (intro empty_pattern_repeats) simp_all
  then have l: "sed_the_buffer [?r] ''a'' 1 [- 1] =
      sed_loop [?r] ''a'' 1 0 [- 1 - of_nat (MAX_BUF + 1)] (replicate (MAX_BUF + 1) (CHR ''x''))"
    by (simp add: sed_the_buffer_def concat_replicate_single del: replicate.simps)
  from p l show ?thesis by simp
qed

text \<open>
  C4 (as the code has it). A count field that is absent or empty gives the counter \<open>-1\<close>;
  a count field that is not empty gives whatever \<^verbatim>\<open>atoi\<close> reads from it.
\<close>

theorem parse_rule_count:
  assumes "CHR ''/'' \<notin> set p" and "CHR ''/'' \<notin> set f" and "CHR ''/'' \<notin> set t"
  shows "parse_rule malloc_ok m (p @ ''/'' @ f @ ''/'' @ t) =
           (case shrink_to_binary malloc_ok m f t of Inl e \<Rightarrow> Inl e | Inr r \<Rightarrow> Inr (r, - 1)) \<and>
         parse_rule malloc_ok m (p @ ''/'' @ f @ ''/'' @ t @ ''/'') =
           (case shrink_to_binary malloc_ok m f t of Inl e \<Rightarrow> Inl e | Inr r \<Rightarrow> Inr (r, - 1)) \<and>
         (cs \<noteq> [] \<longrightarrow>
            parse_rule malloc_ok m (p @ ''/'' @ f @ ''/'' @ t @ ''/'' @ cs) =
              (case shrink_to_binary malloc_ok m f t of Inl e \<Rightarrow> Inl e | Inr r \<Rightarrow> Inr (r, atoi cs)))"
proof -
  have a: "split_slash (p @ ''/'' @ rest) = Some (p, rest)" for rest
    using assms(1) by (rule split_slash_append)
  have b: "split_slash (f @ ''/'' @ rest) = Some (f, rest)" for rest
    using assms(2) by (rule split_slash_append)
  have c: "split_slash (t @ ''/'' @ rest) = Some (t, rest)" for rest
    using assms(3) by (rule split_slash_append)
  have c0: "split_slash t = None"
    using assms(3) by (rule split_slash_None)
  have c1: "split_slash (t @ ''/'') = Some (t, [])"
    using c [of "[]"] by simp
  show ?thesis
    by (cases "shrink_to_binary malloc_ok m f t")
      (simp_all add: parse_rule_def a b c c0 c1 del: append.simps append_Cons append_Nil)
qed

theorem parse_rule_count_witness:
  "parse_rule (\<lambda>n. True) zeroed ''s/a/b'' = Inr (plain_rule ''a'' ''b'', - 1) \<and>
   parse_rule (\<lambda>n. True) zeroed ''s/a/b/'' = Inr (plain_rule ''a'' ''b'', - 1) \<and>
   parse_rule (\<lambda>n. True) zeroed ''s/a/b/3'' = Inr (plain_rule ''a'' ''b'', 3)"
proof -
  have p: "CHR ''/'' \<notin> set ''s''" and f: "CHR ''/'' \<notin> set ''a''" and t: "CHR ''/'' \<notin> set ''b''"
    by simp_all
  have at: "atoi ''3'' = 3"
    by (simp add: atoi_def isspace_def isdigit_def)
  show ?thesis
    using parse_rule_count [OF p f t, of "\<lambda>n. True" zeroed "''3''"]
    by (simp add: shrink_plain_zeroed at)
qed

text \<open>
  C4 as written fails: the count \<open>0\<close> gives the counter \<open>0\<close>, not \<open>-1\<close>, and the engine
  never applies a rule whose counter is \<open>0\<close>.
\<close>

theorem zero_count_is_expired:
  "parse_rule (\<lambda>n. True) zeroed ''s/a/b/0'' = Inr (plain_rule ''a'' ''b'', 0) \<and> (0 :: cint) \<noteq> - 1 \<and>
   sed_the_buffer [plain_rule ''a'' ''b''] ''a'' 1 [0] = Some (''a'', [0])"
  by (simp add: parse_rule_def split_slash_def shrink_plain_zeroed
      atoi_def isspace_def isdigit_def sed_the_buffer_def sed_loop.simps
      sed_step_def scan_rules.simps memcmp_at_def)

text \<open>A negative count is stored as it is written.\<close>

theorem negative_count_is_kept:
  "parse_rule (\<lambda>n. True) zeroed ''s/a/b/-5'' = Inr (plain_rule ''a'' ''b'', - 5)"
  by (simp add: parse_rule_def split_slash_def shrink_plain_zeroed
      atoi_def isspace_def isdigit_def)

subsection \<open>The dispatcher\<close>

lemma same_sockets_refl: "same_sockets c c"
  by (simp add: same_sockets_def)

lemma same_sockets_trans: "same_sockets a b \<Longrightarrow> same_sockets b c \<Longrightarrow> same_sockets a c"
  by (simp add: same_sockets_def)

lemma b2server_sed_effect:
  assumes "b2server_sed cfg e c rd w = Some (c', w')"
  shows "same_sockets c c' \<and> connections w' = connections w \<and> buf w' = buf w \<and>
         (\<exists>evs. trace w' = trace w @ evs \<and> (\<forall>fd. Close fd \<notin> set evs) \<and> (\<forall>a. Free_csa a \<notin> set evs))"
  using assms
  by (auto simp: b2server_sed_def same_sockets_def split: if_splits option.splits)

lemma client2server_sed_effect:
  assumes "client2server_sed cfg e c w = Some (c', w')"
  shows "same_sockets c c' \<and> connections w' = connections w \<and>
         (\<exists>evs. trace w' = trace w @ evs \<and> (\<forall>fd. Close fd \<notin> set evs) \<and> (\<forall>a. Free_csa a \<notin> set evs))"
proof (cases "read_r e (csock c)")
  case (Rd_error eagain)
  with assms have "b2server_sed cfg e (if eagain then c else c\<lparr>state := DISCONNECTED\<rparr>) (- 1) w = Some (c', w')"
    by (simp add: client2server_sed_def)
  from b2server_sed_effect [OF this] show ?thesis
    by (auto simp: same_sockets_def split: if_splits)
next
  case (Rd_bytes d)
  with assms have "b2server_sed cfg e (if d = [] then c\<lparr>state := DISCONNECTED\<rparr> else c)
      (int (length d)) (w\<lparr>buf := read_into d (buf w)\<rparr>) = Some (c', w')"
    by (simp add: client2server_sed_def)
  from b2server_sed_effect [OF this] show ?thesis
    by (auto simp: same_sockets_def split: if_splits)
qed

lemma server2client_sed_effect:
  assumes "server2client_sed cfg e c w = Some (c', w')"
  shows "same_sockets c c' \<and> connections w' = connections w \<and>
         (\<exists>evs. trace w' = trace w @ evs \<and> (\<forall>fd. Close fd \<notin> set evs) \<and> (\<forall>a. Free_csa a \<notin> set evs))"
  using assms
  by (auto simp: server2client_sed_def same_sockets_def split: if_splits option.splits read_res.splits)

lemma released_mono: "released c evs \<Longrightarrow> released c (pre @ evs @ post)"
  by (auto simp: released_def split: option.splits)

lemma released_freetracker: "same_sockets c c' \<Longrightarrow> released c (freetracker c')"
  by (auto simp: released_def freetracker_def same_sockets_def split: option.splits)

lemma Close_freetracker:
  "Close fd \<in> set (freetracker c) \<Longrightarrow> fd = fsock c \<or> (csa c = None \<and> fd = csock c)"
  by (auto simp: freetracker_def split: option.splits)


lemma handle_one:
  assumes "(if tcp cfg \<and> rd_set e (csock c) then client2server_sed cfg e c w else Some (c, w)) = Some (c1, w1)"
    and "(if rd_set e (fsock c1) then server2client_sed cfg e c1 w1 else Some (c1, w1)) = Some (c2, w2)"
  shows "same_sockets c c2 \<and> connections w2 = connections w \<and>
         (\<exists>evs. trace w2 = trace w @ evs \<and> (\<forall>fd. Close fd \<notin> set evs) \<and> (\<forall>a. Free_csa a \<notin> set evs))"
proof -
  have a: "same_sockets c c1 \<and> connections w1 = connections w \<and>
         (\<exists>evs. trace w1 = trace w @ evs \<and> (\<forall>fd. Close fd \<notin> set evs) \<and> (\<forall>a. Free_csa a \<notin> set evs))"
  proof (cases "tcp cfg \<and> rd_set e (csock c)")
    case True
    with assms(1) have "client2server_sed cfg e c w = Some (c1, w1)" by simp
    then show ?thesis by (rule client2server_sed_effect)
  next
    case False
    with assms(1) show ?thesis by (auto simp: same_sockets_refl)
  qed
  have b: "same_sockets c1 c2 \<and> connections w2 = connections w1 \<and>
         (\<exists>evs. trace w2 = trace w1 @ evs \<and> (\<forall>fd. Close fd \<notin> set evs) \<and> (\<forall>a. Free_csa a \<notin> set evs))"
  proof (cases "rd_set e (fsock c1)")
    case True
    with assms(2) have "server2client_sed cfg e c1 w1 = Some (c2, w2)" by simp
    then show ?thesis by (rule server2client_sed_effect)
  next
    case False
    with assms(2) show ?thesis by (auto simp: same_sockets_refl)
  qed
  from a obtain ev1 where ev1: "trace w1 = trace w @ ev1" "\<forall>fd. Close fd \<notin> set ev1" "\<forall>a. Free_csa a \<notin> set ev1"
    by blast
  from b obtain ev2 where ev2: "trace w2 = trace w1 @ ev2" "\<forall>fd. Close fd \<notin> set ev2" "\<forall>a. Free_csa a \<notin> set ev2"
    by blast
  have "trace w2 = trace w @ (ev1 @ ev2)" using ev1 ev2 by simp
  moreover have "\<forall>fd. Close fd \<notin> set (ev1 @ ev2)" using ev1 ev2 by simp
  moreover have "\<forall>a. Free_csa a \<notin> set (ev1 @ ev2)" using ev1 ev2 by simp
  ultimately have "\<exists>evs. trace w2 = trace w @ evs \<and> (\<forall>fd. Close fd \<notin> set evs) \<and> (\<forall>a. Free_csa a \<notin> set evs)"
    by blast
  with a b show ?thesis by (auto intro: same_sockets_trans)
qed

lemma serve_conns_effect:
  "serve_conns cfg e cs w = Some (kept, w') \<Longrightarrow>
     (\<forall>c\<in>set kept. state_num (state c) < state_num DISCONNECTED) \<and>
     connections w' = connections w \<and>
     (\<forall>c'\<in>set kept. \<exists>c\<in>set cs. same_sockets c c') \<and>
     (distinct (map csa cs) \<longrightarrow> distinct (map csa kept)) \<and>
     (\<exists>evs. trace w' = trace w @ evs \<and>
        (\<forall>c\<in>set cs. (\<exists>c'\<in>set kept. same_sockets c c') \<or> released c evs) \<and>
        (\<forall>fd. Close fd \<in> set evs \<longrightarrow> (\<exists>c\<in>set cs. fd = fsock c \<or> (csa c = None \<and> fd = csock c))))"
proof (induction cs arbitrary: w kept w')
  case Nil
  then show ?case by simp
next
  case (Cons conn cs)
  from Cons.prems obtain c1 w1 where
    h1: "(if tcp cfg \<and> rd_set e (csock conn) then client2server_sed cfg e conn w else Some (conn, w)) = Some (c1, w1)"
    by (cases "if tcp cfg \<and> rd_set e (csock conn) then client2server_sed cfg e conn w else Some (conn, w)")
      (auto simp del: split_paired_All split_paired_Ex)
  from Cons.prems h1 obtain c2 w2 where
    h2: "(if rd_set e (fsock c1) then server2client_sed cfg e c1 w1 else Some (c1, w1)) = Some (c2, w2)"
    by (cases "if rd_set e (fsock c1) then server2client_sed cfg e c1 w1 else Some (c1, w1)") auto
  define c3 where "c3 = (if \<not> tcp cfg \<and> UDP_TIMEOUT \<le> now e - time c2 then c2\<lparr>state := TIMEOUT\<rparr> else c2)"
  from handle_one [OF h1 h2] obtain ev0 where
    ss2: "same_sockets conn c2" and cw2: "connections w2 = connections w" and
    ev0: "trace w2 = trace w @ ev0" "\<forall>fd. Close fd \<notin> set ev0"
    by blast
  have ss3: "same_sockets conn c3"
    using ss2 by (simp add: c3_def same_sockets_def)
  show ?case
  proof (cases "state_num DISCONNECTED \<le> state_num (state c3)")
    case True
    let ?w2 = "w2\<lparr>trace := trace w2 @ freetracker c3\<rparr>"
    from Cons.prems h1 h2 True have rest: "serve_conns cfg e cs ?w2 = Some (kept, w')"
      by (simp add: c3_def Let_def)
    note ih = Cons.IH [OF rest]
    from ih obtain evs where evs: "trace w' = trace ?w2 @ evs"
      "\<forall>c\<in>set cs. (\<exists>c'\<in>set kept. same_sockets c c') \<or> released c evs"
      "\<forall>fd. Close fd \<in> set evs \<longrightarrow> (\<exists>c\<in>set cs. fd = fsock c \<or> (csa c = None \<and> fd = csock c))"
      by blast
    let ?all = "ev0 @ freetracker c3 @ evs"
    have t: "trace w' = trace w @ ?all" using evs(1) ev0(1) by simp
    have rel: "\<forall>c\<in>set (conn # cs). (\<exists>c'\<in>set kept. same_sockets c c') \<or> released c ?all"
    proof
      fix c assume "c \<in> set (conn # cs)"
      then consider "c = conn" | "c \<in> set cs" by auto
      then show "(\<exists>c'\<in>set kept. same_sockets c c') \<or> released c ?all"
      proof cases
        case 1
        have "released conn (ev0 @ freetracker c3 @ evs)"
          using released_freetracker [OF ss3] by (rule released_mono)
        with 1 show ?thesis by simp
      next
        case 2
        with evs(2) have "(\<exists>c'\<in>set kept. same_sockets c c') \<or> released c evs" by blast
        then show ?thesis
          using released_mono [of c evs "ev0 @ freetracker c3" "[]"] by auto
      qed
    qed
    have cl: "\<forall>fd. Close fd \<in> set ?all \<longrightarrow>
        (\<exists>c\<in>set (conn # cs). fd = fsock c \<or> (csa c = None \<and> fd = csock c))"
    proof (intro allI impI)
      fix fd assume "Close fd \<in> set ?all"
      then consider "Close fd \<in> set (freetracker c3)" | "Close fd \<in> set evs"
        using ev0(2) by auto
      then show "\<exists>c\<in>set (conn # cs). fd = fsock c \<or> (csa c = None \<and> fd = csock c)"
      proof cases
        case 1
        from Close_freetracker [OF this] ss3 show ?thesis
          by (auto simp: same_sockets_def)
      next
        case 2
        with evs(3) show ?thesis by auto
      qed
    qed
    have d: "distinct (map csa (conn # cs)) \<longrightarrow> distinct (map csa kept)"
      using ih by simp
    have k: "\<forall>c'\<in>set kept. \<exists>c\<in>set (conn # cs). same_sockets c c'"
      using ih by auto
    from ih t rel cl d k cw2 show ?thesis by (simp del: set_simps)
  next
    case False
    from Cons.prems h1 h2 False obtain kept0 where
      rest: "serve_conns cfg e cs w2 = Some (kept0, w')" and kept: "kept = c3 # kept0"
      by (auto simp: c3_def Let_def split: option.splits)
    note ih = Cons.IH [OF rest]
    from ih obtain evs where evs: "trace w' = trace w2 @ evs"
      "\<forall>c\<in>set cs. (\<exists>c'\<in>set kept0. same_sockets c c') \<or> released c evs"
      "\<forall>fd. Close fd \<in> set evs \<longrightarrow> (\<exists>c\<in>set cs. fd = fsock c \<or> (csa c = None \<and> fd = csock c))"
      by blast
    let ?all = "ev0 @ evs"
    have t: "trace w' = trace w @ ?all" using evs(1) ev0(1) by simp
    have rel: "\<forall>c\<in>set (conn # cs). (\<exists>c'\<in>set kept. same_sockets c c') \<or> released c ?all"
    proof
      fix c assume "c \<in> set (conn # cs)"
      then consider "c = conn" | "c \<in> set cs" by auto
      then show "(\<exists>c'\<in>set kept. same_sockets c c') \<or> released c ?all"
      proof cases
        case 1
        with ss3 kept show ?thesis by auto
      next
        case 2
        with evs(2) have "(\<exists>c'\<in>set kept0. same_sockets c c') \<or> released c evs" by blast
        then show ?thesis
          using released_mono [of c evs ev0 "[]"] kept by auto
      qed
    qed
    have cl: "\<forall>fd. Close fd \<in> set ?all \<longrightarrow>
        (\<exists>c\<in>set (conn # cs). fd = fsock c \<or> (csa c = None \<and> fd = csock c))"
      using ev0(2) evs(3) by auto
    have st: "\<forall>c\<in>set kept. state_num (state c) < state_num DISCONNECTED"
      using ih False kept by auto
    have k: "\<forall>c'\<in>set kept. \<exists>c\<in>set (conn # cs). same_sockets c c'"
      using ih ss3 kept by auto
    have d: "distinct (map csa (conn # cs)) \<longrightarrow> distinct (map csa kept)"
    proof
      assume dist: "distinct (map csa (conn # cs))"
      then have "distinct (map csa kept0)" using ih by simp
      moreover have "csa c3 \<notin> set (map csa kept0)"
      proof
        assume "csa c3 \<in> set (map csa kept0)"
        then obtain c' where c': "c' \<in> set kept0" "csa c' = csa c3" by auto
        with ih obtain c where c: "c \<in> set cs" "same_sockets c c'" by blast
        then have "csa c = csa conn"
          using c' ss3 by (simp add: same_sockets_def)
        with c(1) have "csa conn \<in> set (map csa cs)"
          by (metis image_eqI set_map)
        with dist show False by simp
      qed
      ultimately show "distinct (map csa kept)" using kept by simp
    qed
    from ih t rel cl d k st cw2 show ?thesis by (simp del: set_simps)
  qed
qed














lemma find_conn_None:
  "\<forall>c\<in>set cs. (case csa c of None \<Rightarrow> False | Some b \<Rightarrow> csl c = length b) \<Longrightarrow>
   find_conn a cs = None \<Longrightarrow> Some a \<notin> csa ` set cs"
  by (induction cs) (auto split: if_splits option.splits)

lemma find_conn_Some:
  "\<forall>c\<in>set cs. (case csa c of None \<Rightarrow> False | Some b \<Rightarrow> csl c = length b) \<Longrightarrow>
   find_conn a cs = Some k \<Longrightarrow> k < length cs \<and> csa (cs ! k) = Some a"
proof (induction cs arbitrary: k)
  case Nil
  then show ?case by simp
next
  case (Cons c cs)
  show ?case
  proof (cases "csl c = length a \<and> (case csa c of None \<Rightarrow> False | Some b \<Rightarrow> take (length a) b = a)")
    case True
    with Cons.prems have "k = 0" by simp
    moreover from True Cons.prems(1) have "csa c = Some a"
      by (auto split: option.splits)
    ultimately show ?thesis by simp
  next
    case False
    with Cons.prems obtain k' where k': "find_conn a cs = Some k'" "k = Suc k'"
      by auto
    from Cons.IH [OF _ k'(1)] Cons.prems(1) k'(2) show ?thesis by simp
  qed
qed

lemma udp_inv_update:
  assumes "udp_inv cs" and "k < length cs" and "same_sockets (cs ! k) c'"
  shows "udp_inv (cs[k := c'])"
proof -
  have m: "map csa (cs[k := c']) = map csa cs"
    using assms(2,3) by (simp add: map_update same_sockets_def list_update_same_conv)
  have "\<forall>c\<in>set (cs[k := c']). case csa c of None \<Rightarrow> False | Some a \<Rightarrow> csl c = length a"
  proof
    fix c assume "c \<in> set (cs[k := c'])"
    then have "c = c' \<or> c \<in> set cs"
      using set_update_subset_insert [of cs k c'] by auto
    moreover have "case csa c' of None \<Rightarrow> False | Some a \<Rightarrow> csl c' = length a"
      using assms by (auto simp: udp_inv_def same_sockets_def split: option.splits)
    ultimately show "case csa c of None \<Rightarrow> False | Some a \<Rightarrow> csl c = length a"
      using assms(1) by (auto simp: udp_inv_def)
  qed
  with m assms(1) show ?thesis by (simp add: udp_inv_def)
qed

lemma lsock_ready_udp:
  assumes udp: "\<not> tcp cfg" and inv: "udp_inv (connections w)" and r: "lsock_ready cfg e w = Some w1"
  shows "udp_inv (connections w1) \<and>
    (\<forall>d a. recvfrom_r e = Some (d, a) \<longrightarrow>
       (if \<exists>c\<in>set (connections w). csa c = Some a
        then \<exists>k c' w2. k < length (connections w) \<and> csa (connections w ! k) = Some a \<and>
               b2server_sed cfg e (connections w ! k) (int (length d))
                 (w\<lparr>buf := read_into d (buf w)\<rparr>) = Some (c', w2) \<and>
               w1 = w2\<lparr>connections := (connections w)[k := c']\<rparr>
        else w1 = w\<lparr>buf := read_into d (buf w),
                     trace := trace w @ freetracker (new_conn cfg e a (lsock cfg))\<rparr> \<or>
             (\<exists>c' w2. b2server_sed cfg e (new_conn cfg e a (lsock cfg)) (int (length d))
                        (w\<lparr>buf := read_into d (buf w)\<rparr>) = Some (c', w2) \<and>
                      w1 = w2\<lparr>connections := c' # connections w\<rparr>)))"
proof (cases "recvfrom_r e")
  case None
  with udp r have "w1 = w" by (simp add: lsock_ready_def)
  with inv None show ?thesis by simp
next
  case (Some dg)
  obtain d a where dg: "dg = (d, a)" by (cases dg)
  let ?w = "w\<lparr>buf := read_into d (buf w)\<rparr>"
  have lens: "\<forall>c\<in>set (connections w). (case csa c of None \<Rightarrow> False | Some b \<Rightarrow> csl c = length b)"
    using inv by (simp add: udp_inv_def)
  show ?thesis
  proof (cases "find_conn a (connections w)")
    case (Some k)
    from find_conn_Some [OF lens Some] have k: "k < length (connections w)"
      "csa (connections w ! k) = Some a" by simp_all
    from udp r \<open>recvfrom_r e = Some dg\<close> dg Some obtain c' w2 where
      b: "b2server_sed cfg e (connections w ! k) (int (length d)) ?w = Some (c', w2)" and
      w1: "w1 = w2\<lparr>connections := (connections w2)[k := c']\<rparr>"
      by (auto simp: lsock_ready_def Let_def split: option.splits)
    from b2server_sed_effect [OF b] have ss: "same_sockets (connections w ! k) c'"
      and cw: "connections w2 = connections w" by simp_all
    have ex: "\<exists>c\<in>set (connections w). csa c = Some a"
      using k by (metis nth_mem)
    have "udp_inv (connections w1)"
      using udp_inv_update [OF inv k(1) ss] w1 cw by simp
    moreover have "\<exists>k c' w2. k < length (connections w) \<and> csa (connections w ! k) = Some a \<and>
               b2server_sed cfg e (connections w ! k) (int (length d)) ?w = Some (c', w2) \<and>
               w1 = w2\<lparr>connections := (connections w)[k := c']\<rparr>"
      using k b w1 cw by auto
    ultimately show ?thesis
      using \<open>recvfrom_r e = Some dg\<close> dg ex by simp
  next
    case None
    from find_conn_None [OF lens None] have nex: "\<not> (\<exists>c\<in>set (connections w). csa c = Some a)"
      by force
    let ?n = "new_conn cfg e a (lsock cfg)"
    show ?thesis
    proof (cases "connect_ok e")
      case False
      with udp r \<open>recvfrom_r e = Some dg\<close> dg None
      have w1: "w1 = w\<lparr>buf := read_into d (buf w), trace := trace w @ freetracker ?n\<rparr>"
        by (simp add: lsock_ready_def Let_def)
      with inv \<open>recvfrom_r e = Some dg\<close> dg nex show ?thesis by simp
    next
      case True
      with udp r \<open>recvfrom_r e = Some dg\<close> dg None obtain c' w2 where
        b: "b2server_sed cfg e ?n (int (length d)) ?w = Some (c', w2)" and
        w1: "w1 = w2\<lparr>connections := c' # connections w2\<rparr>"
        by (auto simp: lsock_ready_def Let_def split: option.splits)
      from b2server_sed_effect [OF b] have ss: "same_sockets ?n c'"
        and cw: "connections w2 = connections w" by simp_all
      from ss udp have c': "csa c' = Some a" "csl c' = length a"
        by (simp_all add: same_sockets_def new_conn_def)
      have "udp_inv (c' # connections w)"
        using inv c' nex by (auto simp: udp_inv_def)
      then have "udp_inv (connections w1)" using w1 cw by simp
      moreover have "\<exists>c' w2. b2server_sed cfg e ?n (int (length d)) ?w = Some (c', w2) \<and>
                      w1 = w2\<lparr>connections := c' # connections w\<rparr>"
        using b w1 cw by auto
      ultimately show ?thesis
        using \<open>recvfrom_r e = Some dg\<close> dg nex by simp
    qed
  qed
qed

lemma listen_part_udp_inv:
  "\<not> tcp cfg \<Longrightarrow> udp_inv (connections w) \<Longrightarrow> listen_part cfg e w = Some w1 \<Longrightarrow>
   udp_inv (connections w1)"
  using lsock_ready_udp [of cfg w e w1] by (auto simp: listen_part_def split: if_splits)

lemma serve_part_udp_inv:
  assumes "udp_inv (connections w)" and "serve_part cfg e w = Some w'"
  shows "udp_inv (connections w')"
proof -
  from assms(2) obtain kept w2 where sc: "serve_conns cfg e (connections w) w = Some (kept, w2)"
    and w': "w' = w2\<lparr>connections := kept\<rparr>"
    by (auto simp: serve_part_def split: option.splits)
  from serve_conns_effect [OF sc] assms(1) have d: "distinct (map csa kept)"
    and k: "\<forall>c'\<in>set kept. \<exists>c\<in>set (connections w). same_sockets c c'"
    by (simp_all add: udp_inv_def)
  have "\<forall>c'\<in>set kept. case csa c' of None \<Rightarrow> False | Some a \<Rightarrow> csl c' = length a"
  proof
    fix c' assume "c' \<in> set kept"
    with k obtain c where "c \<in> set (connections w)" "same_sockets c c'" by blast
    with assms(1) show "case csa c' of None \<Rightarrow> False | Some a \<Rightarrow> csl c' = length a"
      by (fastforce simp: udp_inv_def same_sockets_def split: option.splits)
  qed
  with d w' show ?thesis by (simp add: udp_inv_def)
qed

lemma dispatch_iter_udp_inv:
  "\<not> tcp cfg \<Longrightarrow> udp_inv (connections w) \<Longrightarrow> dispatch_iter cfg e w = Some w' \<Longrightarrow>
   udp_inv (connections w')"
  by (auto simp: dispatch_iter_def split: option.splits
      intro: serve_part_udp_inv listen_part_udp_inv)

lemma run_loop_udp_inv:
  "\<not> tcp cfg \<Longrightarrow> udp_inv (connections w0) \<Longrightarrow> run_loop cfg es w0 = Some w \<Longrightarrow>
   udp_inv (connections w)"
proof (induction es arbitrary: w0)
  case Nil
  then show ?case by simp
next
  case (Cons e es)
  from Cons.prems(3) obtain w1 where i: "dispatch_iter cfg e w0 = Some w1"
    and r: "run_loop cfg es w1 = Some w"
    by (auto split: option.splits)
  from dispatch_iter_udp_inv [OF Cons.prems(1,2) i] have "udp_inv (connections w1)" .
  from Cons.IH [OF Cons.prems(1) this r] show ?case .
qed


text \<open>
  C9. In udp mode, at the head of every turn of a run that starts with no connection,
  and again after the branch for the listening socket, the entries have addresses
  that differ from each other (\<open>udp_inv\<close>). A datagram from the address of an entry is
  handed to \<^verbatim>\<open>b2server_sed\<close> with that entry, which takes the place of the entry in the
  list, and the list gets no new entry; a datagram from an address no entry has gives
  one new entry with that address at the head of the list, or none when \<^verbatim>\<open>connect\<close>
  fails.
\<close>

theorem udp_flow_identity:
  assumes "\<not> tcp cfg" and "connections w0 = []" and "run_loop cfg es w0 = Some w"
  shows "udp_inv (connections w) \<and>
    (\<forall>e w1. listen_part cfg e w = Some w1 \<longrightarrow>
       udp_inv (connections w1) \<and>
       (\<forall>d a. rd_set e (lsock cfg) \<and> recvfrom_r e = Some (d, a) \<longrightarrow>
          (if \<exists>c\<in>set (connections w). csa c = Some a
           then \<exists>k c' w2. k < length (connections w) \<and> csa (connections w ! k) = Some a \<and>
                  b2server_sed cfg e (connections w ! k) (int (length d))
                    (w\<lparr>buf := read_into d (buf w)\<rparr>) = Some (c', w2) \<and>
                  w1 = w2\<lparr>connections := (connections w)[k := c']\<rparr>
           else w1 = w\<lparr>buf := read_into d (buf w),
                        trace := trace w @ freetracker (new_conn cfg e a (lsock cfg))\<rparr> \<or>
                (\<exists>c' w2. b2server_sed cfg e (new_conn cfg e a (lsock cfg)) (int (length d))
                           (w\<lparr>buf := read_into d (buf w)\<rparr>) = Some (c', w2) \<and>
                         w1 = w2\<lparr>connections := c' # connections w\<rparr>))))"
proof -
  have "udp_inv (connections w0)" using assms(2) by (simp add: udp_inv_def)
  from run_loop_udp_inv [OF assms(1) this assms(3)] have inv: "udp_inv (connections w)" .
  show ?thesis
  proof (intro conjI allI impI)
    show "udp_inv (connections w)" by (rule inv)
  next
    fix e w1 assume "listen_part cfg e w = Some w1"
    then show "udp_inv (connections w1)" by (rule listen_part_udp_inv [OF assms(1) inv])
  next
    fix e w1 d a
    assume l: "listen_part cfg e w = Some w1"
      and dg: "rd_set e (lsock cfg) \<and> recvfrom_r e = Some (d, a)"
    then have "lsock_ready cfg e w = Some w1" by (simp add: listen_part_def)
    from lsock_ready_udp [OF assms(1) inv this] dg
    show "if \<exists>c\<in>set (connections w). csa c = Some a
           then \<exists>k c' w2. k < length (connections w) \<and> csa (connections w ! k) = Some a \<and>
                  b2server_sed cfg e (connections w ! k) (int (length d))
                    (w\<lparr>buf := read_into d (buf w)\<rparr>) = Some (c', w2) \<and>
                  w1 = w2\<lparr>connections := (connections w)[k := c']\<rparr>
           else w1 = w\<lparr>buf := read_into d (buf w),
                        trace := trace w @ freetracker (new_conn cfg e a (lsock cfg))\<rparr> \<or>
                (\<exists>c' w2. b2server_sed cfg e (new_conn cfg e a (lsock cfg)) (int (length d))
                           (w\<lparr>buf := read_into d (buf w)\<rparr>) = Some (c', w2) \<and>
                         w1 = w2\<lparr>connections := c' # connections w\<rparr>)"
      by blast
  qed
qed

lemma scene_run:
  "run_loop scene_cfg
     [scene_env 1 [3] (Some (''xa'', ''A'')) 7, scene_env 2 [3] (Some (''a'', ''B'')) 8,
      scene_env 3 [3] (Some (''aa'', ''A'')) 9]
     \<lparr>buf = ''zzzz'', connections = [], trace = []\<rparr> =
   Some \<lparr>buf = ''aazz'',
         connections = [scene_conn ''B'' 8 2 UNREPLIED (- 2), scene_conn ''A'' 7 3 UNREPLIED (- 4)],
         trace = [Write 7 ''xb'', Write 8 ''b'', Write 7 ''bb'']\<rparr>"
  by (simp add: dispatch_iter_def listen_part_def serve_part_def lsock_ready_def new_conn_def
      b2server_sed_def scene_cfg_def scene_env_def
      scene_conn_def server2client_sed_def read_into_def UDP_TIMEOUT_def freetracker_def
      sed_the_buffer_def sed_loop.simps sed_step_def scan_rules.simps memcmp_at_def plain_rule_def)

theorem udp_flow_identity_witness:
  "\<not> tcp scene_cfg \<and>
   connections \<lparr>buf = ''zzzz'', connections = [], trace = []\<rparr> = [] \<and>
   run_loop scene_cfg
     [scene_env 1 [3] (Some (''xa'', ''A'')) 7, scene_env 2 [3] (Some (''a'', ''B'')) 8,
      scene_env 3 [3] (Some (''aa'', ''A'')) 9]
     \<lparr>buf = ''zzzz'', connections = [], trace = []\<rparr> =
   Some \<lparr>buf = ''aazz'',
         connections = [scene_conn ''B'' 8 2 UNREPLIED (- 2), scene_conn ''A'' 7 3 UNREPLIED (- 4)],
         trace = [Write 7 ''xb'', Write 8 ''b'', Write 7 ''bb'']\<rparr> \<and>
   udp_inv [scene_conn ''B'' 8 2 UNREPLIED (- 2), scene_conn ''A'' 7 3 UNREPLIED (- 4)]"
proof -
  have u: "\<not> tcp scene_cfg" by (simp add: scene_cfg_def)
  have c: "connections \<lparr>buf = ''zzzz'', connections = [], trace = []\<rparr> = []" by simp
  from udp_flow_identity [OF u c scene_run]
  have "udp_inv [scene_conn ''B'' 8 2 UNREPLIED (- 2), scene_conn ''A'' 7 3 UNREPLIED (- 4)]"
    by simp
  with u c scene_run show ?thesis by simp
qed

end
